theory Spec2Isabelle
  imports Main
begin

section \<open>The WebSocket fan-out hub\<close>

text \<open>
  A shallow embedding of the Go package \<open>websocket\<close> (the hub that fans messages out to
  the connected dashboard clients): the origin check of the upgrader, the hub's event
  loop \<open>Run\<close>, the batching layer (\<open>BroadcastMessageBatched\<close>, \<open>flushBatch\<close>,
  \<open>Shutdown\<close>) and the Go runtime objects they use (buffered channels, \<open>time.AfterFunc\<close>
  timers).
\<close>

subsection \<open>Constants\<close>

definition maxBatchSize :: nat where
  "maxBatchSize = 10"

text \<open>The batch window, in milliseconds.\<close>

definition batchWindow :: nat where
  "batchWindow = 50"

text \<open>Capacity of \<open>Hub.broadcast\<close> (\<open>make(chan []byte, 256)\<close> in \<open>NewHub\<close>).\<close>

definition broadcastCap :: nat where
  "broadcastCap = 256"

text \<open>Capacity of \<open>Client.send\<close> (\<open>make(chan []byte, 256)\<close> in \<open>ServeWS\<close>).\<close>

definition sendCap :: nat where
  "sendCap = 256"

subsection \<open>Messages and their JSON encoding\<close>

text \<open>
  \<open>Message\<close> is the struct \<open>{Type string; Data interface{}}\<close>. The values an
  \<open>interface{}\<close> may hold are represented by \<open>payload\<close>: \<open>PMessages\<close> is a
  \<open>[]Message\<close> (what \<open>flushBatch\<close> stores), and \<open>PUnsupported\<close> stands for every Go
  value that \<open>json.Marshal\<close> refuses (a channel, a function, a cyclic value).
\<close>

datatype payload = PNil | PBool bool | PInt int | PString string
  | PMessages "message list" | PUnsupported
and message = Message (Type: string) (Data: payload)

text \<open>
  A serialised message (\<open>[]byte\<close>) is identified with the JSON document that the bytes
  spell out.
\<close>

datatype json = JNull | JBool bool | JNumber int | JString string
  | JArray "json list" | JObject "(string \<times> json) list"

type_synonym bytes = json

text \<open>\<open>json.Marshal\<close>: \<open>None\<close> is the error return.\<close>

fun marshalPayload :: "payload \<Rightarrow> json option"
  and marshal :: "message \<Rightarrow> json option"
  and marshalMessages :: "message list \<Rightarrow> json list option" where
  "marshalPayload PNil = Some JNull"
| "marshalPayload (PBool b) = Some (JBool b)"
| "marshalPayload (PInt i) = Some (JNumber i)"
| "marshalPayload (PString s) = Some (JString s)"
| "marshalPayload (PMessages ms) =
     (case marshalMessages ms of None \<Rightarrow> None | Some js \<Rightarrow> Some (JArray js))"
| "marshalPayload PUnsupported = None"
| "marshal (Message t d) =
     (case marshalPayload d of None \<Rightarrow> None
      | Some j \<Rightarrow> Some (JObject [(''type'', JString t), (''data'', j)]))"
| "marshalMessages [] = Some []"
| "marshalMessages (m # ms) =
     (case marshal m of None \<Rightarrow> None
      | Some j \<Rightarrow> (case marshalMessages ms of None \<Rightarrow> None | Some js \<Rightarrow> Some (j # js)))"

subsection \<open>Log lines\<close>

text \<open>One constructor per \<open>log.Printf\<close> call of the package.\<close>

datatype logline =
    LogOriginAllowed string
  | LogOriginRejected string
  | LogClientConnected nat
  | LogClientDisconnected nat
  | LogBatchMarshalError
  | LogBatchDropped
  | LogMarshalError
  | LogMessageDropped
  | LogUpgradeError

subsection \<open>The origin check of the upgrader\<close>

text \<open>
  The part of an \<open>http.Request\<close> that the package reads: the \<open>Origin\<close> header, and
  whether the rest of the handshake is one that \<open>Upgrade\<close> accepts.
\<close>

record request =
  originHeader :: "string option"
  handshakeOk :: bool

text \<open>\<open>r.Header.Get("Origin")\<close>: the empty string when the header is absent.\<close>

definition Header_Get_Origin :: "request \<Rightarrow> string" where
  "Header_Get_Origin r = (case originHeader r of None \<Rightarrow> [] | Some s \<Rightarrow> s)"

definition allowedOrigins :: "string list" where
  "allowedOrigins =
     [''http://localhost:5173'', ''http://localhost:3000'',
      ''http://127.0.0.1:5173'', ''http://127.0.0.1:3000'']"

text \<open>The \<open>for _, allowed := range allowedOrigins\<close> loop of \<open>CheckOrigin\<close>.\<close>

fun originLoop :: "string \<Rightarrow> string list \<Rightarrow> logline list \<times> bool" where
  "originLoop origin [] = ([LogOriginRejected origin], False)"
| "originLoop origin (allowed # rest) =
     (if origin = allowed then ([LogOriginAllowed origin], True)
      else originLoop origin rest)"

text \<open>\<open>upgrader.CheckOrigin\<close>: the lines it logs and its verdict.\<close>

definition CheckOrigin :: "request \<Rightarrow> logline list \<times> bool" where
  "CheckOrigin r =
     (let origin = Header_Get_Origin r
      in if origin = [] then ([], True) else originLoop origin allowedOrigins)"

subsection \<open>Go runtime objects: channels and timers\<close>

text \<open>A \<open>*Client\<close> and a \<open>*time.Timer\<close> are pointers; each is modelled by a number.\<close>

type_synonym client = nat
type_synonym timer = nat

text \<open>The run-time panics that the channel operations of this package can raise.\<close>

datatype panic = SendOnClosedChannel | CloseOfClosedChannel | NilDereference

text \<open>
  A buffered channel of serialised messages: its queued elements, oldest first, and
  whether it has been closed. \<open>closes\<close> is a history variable, not part of the Go
  object: the number of \<open>close\<close> calls that have completed on the channel.
\<close>

record chan =
  buf :: "bytes list"
  closed :: bool
  closes :: nat

definition make_chan :: chan where
  "make_chan = \<lparr>buf = [], closed = False, closes = 0\<rparr>"

text \<open>\<open>close(ch)\<close>: closing a closed channel panics.\<close>

definition close_chan :: "chan \<Rightarrow> panic + chan" where
  "close_chan ch =
     (if closed ch then Inl CloseOfClosedChannel
      else Inr (ch\<lparr>closed := True, closes := Suc (closes ch)\<rparr>))"

subsection \<open>The state\<close>

text \<open>
  The first four fields are the fields of the struct \<open>Hub\<close> that hold data. Its two
  unbuffered channels \<open>register\<close> and \<open>unregister\<close> hold nothing: a request on one of
  them is an event that \<open>Run\<close> handles. Its two mutexes are represented by the
  granularity of the operations below: a critical section is one operation (a call that
  flushes a batch releases \<open>batchMutex\<close> in its middle and is given in two parts).

  The other fields are the surroundings of the hub: \<open>sendq\<close> holds the \<open>send\<close> channel
  of every \<open>Client\<close> constructed so far and \<open>nextClient\<close> is the next fresh pointer;
  \<open>now\<close> is the clock in milliseconds; \<open>armed\<close> maps every timer that was created by
  \<open>time.AfterFunc\<close> and has neither expired nor been stopped to its deadline;
  \<open>started\<close> holds the timers that have expired and whose function runs in its own
  goroutine but has not yet acquired \<open>batchMutex\<close>; \<open>logs\<close> is the log written so far.
\<close>

record world =
  clients :: "client \<rightharpoonup> bool"
  broadcast :: "bytes list"
  batchBuffer :: "message list"
  batchTimer :: "timer option"
  sendq :: "client \<rightharpoonup> chan"
  nextClient :: client
  now :: nat
  armed :: "timer \<rightharpoonup> nat"
  started :: "timer set"
  nextTimer :: timer
  logs :: "logline list"

definition NewHub :: world where
  "NewHub =
     \<lparr>clients = Map.empty, broadcast = [], batchBuffer = [], batchTimer = None,
      sendq = Map.empty, nextClient = 0, now = 0, armed = Map.empty, started = {},
      nextTimer = 0, logs = []\<rparr>"

definition log_Printf :: "logline \<Rightarrow> world \<Rightarrow> world" where
  "log_Printf l h = h\<lparr>logs := logs h @ [l]\<rparr>"

text \<open>\<open>len(h.clients)\<close>.\<close>

definition len_clients :: "world \<Rightarrow> nat" where
  "len_clients h = card (dom (clients h))"

definition GetClientCount :: "world \<Rightarrow> nat" where
  "GetClientCount h = len_clients h"

subsection \<open>The event loop \<open>Run\<close>\<close>

text \<open>The \<open>register\<close> case of the \<open>select\<close>.\<close>

definition Run_register :: "client \<Rightarrow> world \<Rightarrow> world" where
  "Run_register c h =
     (let h1 = h\<lparr>clients := (clients h)(c \<mapsto> True)\<rparr>
      in log_Printf (LogClientConnected (len_clients h1)) h1)"

text \<open>\<open>close(client.send)\<close>.\<close>

definition close_send :: "client \<Rightarrow> world \<Rightarrow> panic + world" where
  "close_send c h =
     (case sendq h c of
        None \<Rightarrow> Inl NilDereference
      | Some ch \<Rightarrow>
          (case close_chan ch of
             Inl p \<Rightarrow> Inl p
           | Inr ch' \<Rightarrow> Inr (h\<lparr>sendq := (sendq h)(c \<mapsto> ch')\<rparr>)))"

text \<open>
  The block that \<open>Run\<close> contains twice, in the \<open>unregister\<close> case and in the
  \<open>default\<close> branch of the delivery:
  \<^verbatim>\<open>if _, ok := h.clients[client]; ok { delete(h.clients, client); close(client.send) }\<close>
\<close>

definition delete_and_close :: "client \<Rightarrow> world \<Rightarrow> panic + world" where
  "delete_and_close c h =
     (if c \<in> dom (clients h)
      then close_send c (h\<lparr>clients := (clients h)(c := None)\<rparr>)
      else Inr h)"

text \<open>The \<open>unregister\<close> case of the \<open>select\<close>.\<close>

definition Run_unregister :: "client \<Rightarrow> world \<Rightarrow> panic + world" where
  "Run_unregister c h =
     (case delete_and_close c h of
        Inl p \<Rightarrow> Inl p
      | Inr h1 \<Rightarrow> Inr (log_Printf (LogClientDisconnected (len_clients h1)) h1))"

text \<open>
  The inner \<open>select\<close> of the delivery loop, for one client of the snapshot:
  \<open>case client.send <- message\<close> is taken when the channel has room, \<open>default\<close>
  otherwise. A send on a closed channel panics, also inside a \<open>select\<close>.
\<close>

definition try_send :: "bytes \<Rightarrow> client \<Rightarrow> world \<Rightarrow> panic + world" where
  "try_send message c h =
     (case sendq h c of
        None \<Rightarrow> Inl NilDereference
      | Some ch \<Rightarrow>
          if closed ch then Inl SendOnClosedChannel
          else if length (buf ch) < sendCap
          then Inr (h\<lparr>sendq := (sendq h)(c \<mapsto> ch\<lparr>buf := buf ch @ [message]\<rparr>)\<rparr>)
          else delete_and_close c h)"

text \<open>\<open>for _, client := range clients\<close> over the snapshot.\<close>

fun deliver :: "bytes \<Rightarrow> client list \<Rightarrow> world \<Rightarrow> panic + world" where
  "deliver message [] h = Inr h"
| "deliver message (c # cs) h =
     (case try_send message c h of
        Inl p \<Rightarrow> Inl p
      | Inr h1 \<Rightarrow> deliver message cs h1)"

text \<open>
  The snapshot is built by ranging over the map \<open>h.clients\<close>, in the order the Go
  runtime picks: any list that holds each key once.
\<close>

definition is_snapshot :: "world \<Rightarrow> client list \<Rightarrow> bool" where
  "is_snapshot h snap = (distinct snap \<and> set snap = dom (clients h))"

text \<open>
  The \<open>broadcast\<close> case of the \<open>select\<close>, with the order of the snapshot as an
  argument. \<open>None\<close>: the case cannot be taken (nothing is queued on \<open>h.broadcast\<close>),
  or the list is not a snapshot of the map.
\<close>

definition Run_broadcast :: "client list \<Rightarrow> world \<Rightarrow> (panic + world) option" where
  "Run_broadcast snap h =
     (case broadcast h of
        [] \<Rightarrow> None
      | message # rest \<Rightarrow>
          if is_snapshot h snap
          then Some (deliver message snap (h\<lparr>broadcast := rest\<rparr>))
          else None)"

text \<open>
  The three cases of the \<open>select\<close> of \<open>Run\<close>: a client received from \<open>h.register\<close>,
  a client received from \<open>h.unregister\<close>, a message received from \<open>h.broadcast\<close>
  (with the order in which the map is ranged over).
\<close>

datatype hub_request =
    RegisterReq client
  | UnregisterReq client
  | BroadcastReq "client list"

text \<open>One iteration of the loop of \<open>Run\<close>.\<close>

fun Run :: "hub_request \<Rightarrow> world \<Rightarrow> (panic + world) option" where
  "Run (RegisterReq c) h = Some (Inr (Run_register c h))"
| "Run (UnregisterReq c) h = Some (Run_unregister c h)"
| "Run (BroadcastReq snap) h = Run_broadcast snap h"

text \<open>The loop of \<open>Run\<close> over the requests it receives; a panic ends it.\<close>

fun Run_loop :: "hub_request list \<Rightarrow> world \<Rightarrow> (panic + world) option" where
  "Run_loop [] h = Some (Inr h)"
| "Run_loop (r # rs) h =
     (case Run r h of
        None \<Rightarrow> None
      | Some (Inl p) \<Rightarrow> Some (Inl p)
      | Some (Inr h1) \<Rightarrow> Run_loop rs h1)"

subsection \<open>Timers\<close>

text \<open>\<open>time.AfterFunc(batchWindow, f)\<close>: a new timer, due one batch window from now.\<close>

definition time_AfterFunc :: "world \<Rightarrow> timer \<times> world" where
  "time_AfterFunc h =
     (nextTimer h,
      h\<lparr>armed := (armed h)(nextTimer h \<mapsto> now h + batchWindow),
        nextTimer := Suc (nextTimer h)\<rparr>)"

text \<open>
  \<open>t.Stop()\<close>: a timer that has not expired will not; one that has expired is not
  affected, and neither is its function, which already runs in its goroutine.
\<close>

definition timer_Stop :: "timer \<Rightarrow> world \<Rightarrow> world" where
  "timer_Stop t h = h\<lparr>armed := (armed h)(t := None)\<rparr>"

text \<open>
  \<^verbatim>\<open>if h.batchTimer != nil { h.batchTimer.Stop(); h.batchTimer = nil }\<close>,
  in \<open>Shutdown\<close> and in \<open>flushBatch\<close>.
\<close>

definition stop_batchTimer :: "world \<Rightarrow> world" where
  "stop_batchTimer h =
     (case batchTimer h of
        None \<Rightarrow> h
      | Some t \<Rightarrow> (timer_Stop t h)\<lparr>batchTimer := None\<rparr>)"

subsection \<open>The batching layer\<close>

text \<open>
  \<open>flushBatch\<close> has two parts. The first runs under \<open>batchMutex\<close>, which the caller
  holds: it returns at once when nothing is pending; otherwise it stops and clears the
  timer, copies the buffer, empties it and releases the mutex. The result is the state at
  that point and the copy, if one was made. The second part runs with the mutex free: it
  serialises the copy and submits it to \<open>h.broadcast\<close> (or drops it and logs). After it
  \<open>flushBatch\<close> takes the mutex again and returns, and its callers only release it.
  Between the two parts any other goroutine can take \<open>batchMutex\<close>.
\<close>

definition flush_swap :: "world \<Rightarrow> world \<times> message list option" where
  "flush_swap h =
     (if length (batchBuffer h) = 0 then (h, None)
      else
        let h1 = stop_batchTimer h;
            buffer = batchBuffer h1;
            h2 = h1\<lparr>batchBuffer := []\<rparr>
        in (h2, Some buffer))"

definition flush_submit :: "message list \<Rightarrow> world \<Rightarrow> world" where
  "flush_submit buffer h =
     (let batchMessage = Message ''batch'' (PMessages buffer)
      in case marshal batchMessage of
           None \<Rightarrow> log_Printf LogBatchMarshalError h
         | Some jsonData \<Rightarrow>
             if length (broadcast h) < broadcastCap
             then h\<lparr>broadcast := broadcast h @ [jsonData]\<rparr>
             else log_Printf LogBatchDropped h)"

text \<open>
  A call that has left its critical section runs to its end with no other goroutine in
  between: the second part of the flush it has begun, if it has begun one.
\<close>

definition complete :: "world \<times> message list option \<Rightarrow> world" where
  "complete r = (case r of (h, None) \<Rightarrow> h | (h, Some buffer) \<Rightarrow> flush_submit buffer h)"

text \<open>\<open>flushBatch\<close> when no other goroutine runs between its two parts.\<close>

definition flushBatch :: "world \<Rightarrow> world" where
  "flushBatch h = complete (flush_swap h)"

text \<open>
  Each caller of \<open>flushBatch\<close> is given in the same way: \<open>f_locked\<close> is its critical
  section, up to the point where \<open>batchMutex\<close> is first released (inside \<open>flushBatch\<close>
  when it flushes, at its own \<open>Unlock\<close> otherwise), with the copy of the buffer when a
  flush has begun; \<open>f\<close> is the whole call when no other goroutine runs in between.
\<close>

definition Shutdown_locked :: "world \<Rightarrow> world \<times> message list option" where
  "Shutdown_locked h =
     (let h1 = stop_batchTimer h
      in if length (batchBuffer h1) > 0 then flush_swap h1 else (h1, None))"

definition Shutdown :: "world \<Rightarrow> world" where
  "Shutdown h = complete (Shutdown_locked h)"

definition BroadcastMessage :: "string \<Rightarrow> payload \<Rightarrow> world \<Rightarrow> world" where
  "BroadcastMessage eventType data h =
     (let message = Message eventType data
      in case marshal message of
           None \<Rightarrow> log_Printf LogMarshalError h
         | Some jsonData \<Rightarrow>
             if length (broadcast h) < broadcastCap
             then h\<lparr>broadcast := broadcast h @ [jsonData]\<rparr>
             else log_Printf LogMessageDropped h)"

definition BroadcastMessageBatched_locked ::
  "string \<Rightarrow> payload \<Rightarrow> world \<Rightarrow> world \<times> message list option" where
  "BroadcastMessageBatched_locked eventType data h =
     (let message = Message eventType data;
          h1 = h\<lparr>batchBuffer := batchBuffer h @ [message]\<rparr>
      in if length (batchBuffer h1) \<ge> maxBatchSize then flush_swap h1
         else if batchTimer h1 = None
         then (let (t, h2) = time_AfterFunc h1 in (h2\<lparr>batchTimer := Some t\<rparr>, None))
         else (h1, None))"

definition BroadcastMessageBatched :: "string \<Rightarrow> payload \<Rightarrow> world \<Rightarrow> world" where
  "BroadcastMessageBatched eventType data h =
     complete (BroadcastMessageBatched_locked eventType data h)"

text \<open>The function that \<open>BroadcastMessageBatched\<close> hands to \<open>time.AfterFunc\<close>.\<close>

definition batchTimerFunc_locked :: "world \<Rightarrow> world \<times> message list option" where
  "batchTimerFunc_locked h = (if batchTimer h \<noteq> None then flush_swap h else (h, None))"

definition batchTimerFunc :: "world \<Rightarrow> world" where
  "batchTimerFunc h = complete (batchTimerFunc_locked h)"

subsection \<open>Connections\<close>

text \<open>
  \<open>upgrader.Upgrade\<close>, as far as the hub sees it: it succeeds when the handshake is
  well-formed and \<open>CheckOrigin\<close> accepts the request.
\<close>

definition Upgrade :: "request \<Rightarrow> logline list \<times> bool" where
  "Upgrade r = (if handshakeOk r then CheckOrigin r else ([], False))"

text \<open>
  \<open>ServeWS\<close>, up to the point where \<open>Run\<close> has taken the new client from
  \<open>h.register\<close>. The client is constructed by the handler's goroutine, which then blocks
  on the unbuffered channel; no other goroutine knows the client before \<open>Run\<close> has
  registered it, so construction and registration are one step.
\<close>

definition ServeWS :: "request \<Rightarrow> world \<Rightarrow> world" where
  "ServeWS r h =
     (let (ls, ok) = Upgrade r;
          h1 = h\<lparr>logs := logs h @ ls\<rparr>
      in if \<not> ok then log_Printf LogUpgradeError h1
         else
           let c = nextClient h1;
               h2 = h1\<lparr>sendq := (sendq h1)(c \<mapsto> make_chan), nextClient := Suc c\<rparr>
           in Run_register c h2)"

text \<open>
  \<open>writePump\<close> of client \<open>c\<close> takes the \<open>k\<close> oldest messages from \<open>c.send\<close> and writes
  them into one frame (the first receive and the messages it finds queued after it).
  \<open>None\<close>: fewer than \<open>k\<close> messages are queued, or \<open>k = 0\<close>.
\<close>

definition writePump_recv :: "client \<Rightarrow> nat \<Rightarrow> world \<Rightarrow> world option" where
  "writePump_recv c k h =
     (case sendq h c of
        None \<Rightarrow> None
      | Some ch \<Rightarrow>
          if 0 < k \<and> k \<le> length (buf ch)
          then Some (h\<lparr>sendq := (sendq h)(c \<mapsto> ch\<lparr>buf := drop k (buf ch)\<rparr>)\<rparr>)
          else None)"

text \<open>Sequential calls of \<open>BroadcastMessageBatched\<close>, one for each message of a list.\<close>

fun add_all :: "message list \<Rightarrow> world \<Rightarrow> world" where
  "add_all [] h = h"
| "add_all (m # ms) h = add_all ms (BroadcastMessageBatched (Type m) (Data m) h)"

subsection \<open>Schedules\<close>

text \<open>
  The steps of the running system, each call running to its end. \<open>Connect r\<close> is a request served by \<open>ServeWS\<close>,
  the only place that sends on \<open>h.register\<close>; \<open>Unregister c\<close> is \<open>Run\<close> handling a
  request on \<open>h.unregister\<close>; \<open>Deliver snap\<close> is \<open>Run\<close> taking the next message from
  \<open>h.broadcast\<close>; \<open>WritePump c k\<close> is a receive of \<open>writePump\<close>; \<open>Broadcast\<close>,
  \<open>BroadcastBatched\<close> and \<open>ShutdownCall\<close> are calls by a producer. \<open>Elapse\<close> lets time pass; \<open>TimerExpires t\<close> is the
  runtime starting the function of a due timer in its own goroutine; \<open>TimerCallback t\<close>
  is that goroutine acquiring \<open>batchMutex\<close> and running.
\<close>

datatype event =
    Connect request
  | Unregister client
  | Deliver "client list"
  | WritePump client nat
  | Broadcast string payload
  | BroadcastBatched string payload
  | Elapse nat
  | TimerExpires timer
  | TimerCallback timer
  | ShutdownCall

definition timer_expires :: "timer \<Rightarrow> world \<Rightarrow> world option" where
  "timer_expires t h =
     (case armed h t of
        None \<Rightarrow> None
      | Some deadline \<Rightarrow>
          if deadline \<le> now h
          then Some (h\<lparr>armed := (armed h)(t := None), started := insert t (started h)\<rparr>)
          else None)"

definition timer_callback :: "timer \<Rightarrow> world \<Rightarrow> world option" where
  "timer_callback t h =
     (if t \<in> started h
      then Some (batchTimerFunc (h\<lparr>started := started h - {t}\<rparr>))
      else None)"

text \<open>
  One step. \<open>None\<close>: the step cannot be taken in this state. \<open>Some (Inl p)\<close>: the
  step panics.
\<close>

fun exec :: "event \<Rightarrow> world \<Rightarrow> (panic + world) option" where
  "exec (Connect r) h = Some (Inr (ServeWS r h))"
| "exec (Unregister c) h = Run (UnregisterReq c) h"
| "exec (Deliver snap) h = Run (BroadcastReq snap) h"
| "exec (WritePump c k) h = map_option Inr (writePump_recv c k h)"
| "exec (Broadcast eventType data) h = Some (Inr (BroadcastMessage eventType data h))"
| "exec (BroadcastBatched eventType data) h =
     Some (Inr (BroadcastMessageBatched eventType data h))"
| "exec (Elapse d) h = Some (Inr (h\<lparr>now := now h + d\<rparr>))"
| "exec (TimerExpires t) h = map_option Inr (timer_expires t h)"
| "exec (TimerCallback t) h = map_option Inr (timer_callback t h)"
| "exec ShutdownCall h = Some (Inr (Shutdown h))"

fun execs :: "event list \<Rightarrow> world \<Rightarrow> (panic + world) option" where
  "execs [] h = Some (Inr h)"
| "execs (e # es) h =
     (case exec e h of
        None \<Rightarrow> None
      | Some (Inl p) \<Rightarrow> Some (Inl p)
      | Some (Inr h1) \<Rightarrow> execs es h1)"

subsection \<open>Schedules that interleave inside a flush\<close>

text \<open>
  In \<open>exec\<close> a call of \<open>BroadcastMessageBatched\<close>, of the timer function or of
  \<open>Shutdown\<close> runs to its end in one step. The steps below cut such a call where the code
  releases \<open>batchMutex\<close>. The state is the world together with the flushes in flight:
  the buffers that have been swapped out and copied by a goroutine that has not yet
  submitted them. \<open>Locked e\<close> is the critical section of the call \<open>e\<close> (for every other
  event, the event itself); \<open>Submit i\<close> is the goroutine that holds the \<open>i\<close>-th buffer in
  flight serialising and submitting it, after which its call returns.
\<close>

type_synonym conc = "world \<times> message list list"

definition in_flight :: "world \<times> message list option \<Rightarrow> message list list \<Rightarrow> conc" where
  "in_flight r fl = (case r of (h, None) \<Rightarrow> (h, fl) | (h, Some buffer) \<Rightarrow> (h, fl @ [buffer]))"

datatype cevent = Locked event | Submit nat

fun cexec :: "cevent \<Rightarrow> conc \<Rightarrow> (panic + conc) option" where
  "cexec (Locked (BroadcastBatched eventType data)) (h, fl) =
     Some (Inr (in_flight (BroadcastMessageBatched_locked eventType data h) fl))"
| "cexec (Locked (TimerCallback t)) (h, fl) =
     (if t \<in> started h
      then Some (Inr (in_flight (batchTimerFunc_locked (h\<lparr>started := started h - {t}\<rparr>)) fl))
      else None)"
| "cexec (Locked ShutdownCall) (h, fl) = Some (Inr (in_flight (Shutdown_locked h) fl))"
| "cexec (Locked e) (h, fl) =
     (case exec e h of
        None \<Rightarrow> None
      | Some (Inl p) \<Rightarrow> Some (Inl p)
      | Some (Inr h1) \<Rightarrow> Some (Inr (h1, fl)))"
| "cexec (Submit i) (h, fl) =
     (if i < length fl
      then Some (Inr (flush_submit (fl ! i) h, take i fl @ drop (Suc i) fl))
      else None)"

fun cexecs :: "cevent list \<Rightarrow> conc \<Rightarrow> (panic + conc) option" where
  "cexecs [] s = Some (Inr s)"
| "cexecs (e # es) s =
     (case cexec e s of
        None \<Rightarrow> None
      | Some (Inl p) \<Rightarrow> Some (Inl p)
      | Some (Inr s1) \<Rightarrow> cexecs es s1)"

subsection \<open>Invariants\<close>

text \<open>
  The state of the connections: an active client has an open \<open>send\<close> channel; a
  constructed client that is not active has a closed one; a channel has been closed once
  if it is closed and never otherwise; the constructed clients are the pointers handed
  out so far; the map \<open>h.clients\<close> only holds \<open>true\<close>.
\<close>

definition conn_inv :: "world \<Rightarrow> bool" where
  "conn_inv h =
     (\<forall>c. (c \<in> dom (clients h) \<longrightarrow> (\<exists>ch. sendq h c = Some ch \<and> \<not> closed ch)) \<and>
          (\<forall>ch. sendq h c = Some ch \<longrightarrow>
             (c \<notin> dom (clients h) \<longrightarrow> closed ch) \<and>
             closes ch = (if closed ch then 1 else 0)) \<and>
          (c \<in> dom (sendq h) \<longrightarrow> c < nextClient h) \<and>
          clients h c \<noteq> Some False)"

text \<open>
  The state of the batching layer: a deadline is set exactly when messages are pending,
  and fewer of them than the threshold; the only timer that can be armed is the one
  \<open>h.batchTimer\<close> points to; timers are handed out in increasing order.
\<close>

definition batch_inv :: "world \<Rightarrow> bool" where
  "batch_inv h =
     ((batchTimer h = None) = (batchBuffer h = []) \<and>
      length (batchBuffer h) < maxBatchSize \<and>
      (\<forall>t d. armed h t = Some d \<longrightarrow> batchTimer h = Some t) \<and>
      (\<forall>t. batchTimer h = Some t \<longrightarrow> t < nextTimer h))"

text \<open>The fields that the batching layer and its timers read and write.\<close>

definition batch_part ::
  "world \<Rightarrow> message list \<times> timer option \<times> (timer \<rightharpoonup> nat) \<times> timer" where
  "batch_part h = (batchBuffer h, batchTimer h, armed h, nextTimer h)"

text \<open>\<open>client.send\<close> has no room: the \<open>select\<close> of the delivery takes \<open>default\<close>.\<close>

definition queue_full :: "world \<Rightarrow> client \<Rightarrow> bool" where
  "queue_full h c =
     (case sendq h c of None \<Rightarrow> False | Some ch \<Rightarrow> \<not> length (buf ch) < sendCap)"

subsection \<open>Predicates used in the statements\<close>

text \<open>
  What the delivery loop needs of the clients it ranges over: each occurs once, is
  active and has an open channel.
\<close>

definition deliverable :: "world \<Rightarrow> client list \<Rightarrow> bool" where
  "deliverable h cs =
     (distinct cs \<and> (\<forall>c \<in> set cs. c \<in> dom (clients h) \<and> (\<exists>ch. sendq h c = Some ch \<and> \<not> closed ch)))"

text \<open>
  The state after a delivery pass over \<open>cs\<close>, client by client: a client outside \<open>cs\<close>
  is untouched; a client with room has the message appended; a client without room is
  removed and its channel closed. No other field changes.
\<close>

definition delivered :: "bytes \<Rightarrow> client list \<Rightarrow> world \<Rightarrow> world \<Rightarrow> bool" where
  "delivered m cs h h' =
     (h' = h\<lparr>clients := clients h', sendq := sendq h'\<rparr> \<and>
      (\<forall>c. c \<notin> set cs \<longrightarrow> sendq h' c = sendq h c \<and> clients h' c = clients h c) \<and>
      (\<forall>c \<in> set cs. \<forall>ch. sendq h c = Some ch \<longrightarrow>
         (if length (buf ch) < sendCap
          then sendq h' c = Some (ch\<lparr>buf := buf ch @ [m]\<rparr>) \<and> clients h' c = clients h c
          else sendq h' c = Some (ch\<lparr>closed := True, closes := Suc (closes ch)\<rparr>) \<and>
               clients h' c = None)))"

text \<open>
  How the channels may change in a step: a channel stays; a closed channel stays closed
  and nothing is added to it (it can only be read from); a channel is closed only
  together with the removal of its client from the active set.
\<close>

definition queues_step :: "world \<Rightarrow> world \<Rightarrow> bool" where
  "queues_step h h' =
     (\<forall>c ch. sendq h c = Some ch \<longrightarrow>
        (\<exists>ch'. sendq h' c = Some ch' \<and>
           (closed ch \<longrightarrow> closed ch' \<and> (\<exists>k. buf ch' = drop k (buf ch))) \<and>
           (\<not> closed ch \<and> closed ch' \<longrightarrow> c \<in> dom (clients h) \<and> c \<notin> dom (clients h'))))"

subsection \<open>Example states\<close>

text \<open>
  Two active clients: client 0 has a full \<open>send\<close> channel (its \<open>writePump\<close> does not keep
  up), client 1 an empty one; one message waits on \<open>h.broadcast\<close>.
\<close>

definition slow_and_fast :: world where
  "slow_and_fast =
     NewHub\<lparr>clients := [0 \<mapsto> True, 1 \<mapsto> True],
            broadcast := [JNumber 7],
            sendq := [0 \<mapsto> \<lparr>buf = replicate 256 JNull, closed = False, closes = 0\<rparr>,
                      1 \<mapsto> make_chan],
            nextClient := 2\<rparr>"

subsection \<open>The active set, as the specification describes it\<close>

text \<open>
  The set of connections that have been registered and not yet unregistered, followed
  along the requests that \<open>Run\<close> handles: \<open>register\<close> adds the connection (a set has
  no duplicates), \<open>unregister\<close> removes it, and a delivery pass unregisters the
  connections whose outbound queue is full (eviction is the specification's
  unregistration by outbound saturation).
\<close>

definition spec_request :: "hub_request \<Rightarrow> world \<Rightarrow> client set \<Rightarrow> client set" where
  "spec_request r h S =
     (case r of
        RegisterReq c \<Rightarrow> insert c S
      | UnregisterReq c \<Rightarrow> S - {c}
      | BroadcastReq snap \<Rightarrow> S - {c. queue_full h c})"

text \<open>The same along a list of requests, each taken in the state the loop has reached.\<close>

fun spec_active :: "hub_request list \<Rightarrow> world \<Rightarrow> client set \<Rightarrow> client set" where
  "spec_active [] h S = S"
| "spec_active (r # rs) h S =
     (case Run r h of
        Some (Inr h1) \<Rightarrow> spec_active rs h1 (spec_request r h S)
      | _ \<Rightarrow> S)"

text \<open>The hub after two accepted connections: the clients 0 and 1 are active.\<close>

definition two_clients :: world where
  "two_clients =
     ServeWS \<lparr>originHeader = None, handshakeOk = True\<rparr>
       (ServeWS \<lparr>originHeader = None, handshakeOk = True\<rparr> NewHub)"

text \<open>A hub whose submission queue \<open>h.broadcast\<close> is full.\<close>

definition saturated :: world where
  "saturated = NewHub\<lparr>broadcast := replicate 256 JNull\<rparr>"

text \<open>
  The messages of the end-to-end scenario: \<open>BroadcastMessageBatched("tick", i)\<close>, the
  envelope each is serialised to, and the envelope of a batch.
\<close>

definition tick :: "int \<Rightarrow> message" where
  "tick i = Message ''tick'' (PInt i)"

definition tick_json :: "int \<Rightarrow> json" where
  "tick_json i = JObject [(''type'', JString ''tick''), (''data'', JNumber i)]"

definition batch_json :: "json list \<Rightarrow> json" where
  "batch_json js = JObject [(''type'', JString ''batch''), (''data'', JArray js)]"

text \<open>The call \<open>BroadcastMessageBatched("tick", i)\<close> as a step of a schedule.\<close>

definition tick_call :: "int \<Rightarrow> event" where
  "tick_call i = BroadcastBatched ''tick'' (PInt i)"

text \<open>
  The states of the scenario: after the first ten calls (one batch submitted, nothing
  pending, timer 0 stopped), after all fifteen (five messages pending, timer 1 armed and
  due at 50 ms), and after the window has elapsed and timer 1 has run.
\<close>

definition after_ten_ticks :: world where
  "after_ten_ticks =
     NewHub\<lparr>broadcast := [batch_json (map tick_json [0, 1, 2, 3, 4, 5, 6, 7, 8, 9])],
            nextTimer := 1\<rparr>"

definition after_fifteen_ticks :: world where
  "after_fifteen_ticks =
     after_ten_ticks\<lparr>batchBuffer := map tick [10, 11, 12, 13, 14],
                     batchTimer := Some 1, armed := [1 \<mapsto> 50], nextTimer := 2\<rparr>"

definition after_window :: world where
  "after_window =
     NewHub\<lparr>broadcast := [batch_json (map tick_json [0, 1, 2, 3, 4, 5, 6, 7, 8, 9]),
                          batch_json (map tick_json [10, 11, 12, 13, 14])],
            now := 50, nextTimer := 2\<rparr>"

text \<open>
  The states of the schedule in which the function of an expired timer runs late: the
  first window (ticks 1 to 10) has been flushed by size, tick 11 is pending in the second
  window with its own timer 1 armed for 100 ms, and the function of timer 0, which
  expired at 50 ms, has not yet acquired \<open>batchMutex\<close>; and the state after it has.
\<close>

definition stale_pending :: world where
  "stale_pending =
     NewHub\<lparr>broadcast := [batch_json (map tick_json [1, 2, 3, 4, 5, 6, 7, 8, 9, 10])],
            batchBuffer := [tick 11], batchTimer := Some 1, now := 50,
            armed := [1 \<mapsto> 100], started := {0}, nextTimer := 2\<rparr>"

definition stale_flushed :: world where
  "stale_flushed =
     NewHub\<lparr>broadcast := [batch_json (map tick_json [1, 2, 3, 4, 5, 6, 7, 8, 9, 10]),
                          batch_json [tick_json 11]],
            now := 50, nextTimer := 2\<rparr>"

text \<open>
  A state of the schedules that interleave inside a flush: twelve ticks have been added;
  the flush of the first ten has been swapped out and is in flight, ticks 10 and 11 are
  pending and timer 1 is armed.
\<close>

definition two_pending :: world where
  "two_pending =
     NewHub\<lparr>batchBuffer := [tick 10, tick 11], batchTimer := Some 1,
            armed := [1 \<mapsto> 50], nextTimer := 2\<rparr>"

text \<open>
  Tick 0 is pending and its timer 0 has expired: the timer function has been started but
  has not yet acquired \<open>batchMutex\<close>.
\<close>

definition timer_started :: world where
  "timer_started =
     NewHub\<lparr>batchBuffer := [tick 0], batchTimer := Some 0, now := 50, started := {0},
            nextTimer := 1\<rparr>"

section \<open>Properties\<close>

subsection \<open>Calls that run without interruption\<close>

lemma flushBatch_seq:
  "flushBatch h =
     (if length (batchBuffer h) = 0 then h
      else
        let h1 = stop_batchTimer h;
            buffer = batchBuffer h1;
            h2 = h1\<lparr>batchBuffer := []\<rparr>;
            batchMessage = Message ''batch'' (PMessages buffer)
        in case marshal batchMessage of
             None \<Rightarrow> log_Printf LogBatchMarshalError h2
           | Some jsonData \<Rightarrow>
               if length (broadcast h2) < broadcastCap
               then h2\<lparr>broadcast := broadcast h2 @ [jsonData]\<rparr>
               else log_Printf LogBatchDropped h2)"
  by (simp add: flushBatch_def flush_swap_def flush_submit_def complete_def Let_def)

lemma Shutdown_seq:
  "Shutdown h =
     (let h1 = stop_batchTimer h
      in if length (batchBuffer h1) > 0 then flushBatch h1 else h1)"
  by (simp add: Shutdown_def Shutdown_locked_def flushBatch_def complete_def Let_def)

lemma BroadcastMessageBatched_seq:
  "BroadcastMessageBatched eventType data h =
     (let message = Message eventType data;
          h1 = h\<lparr>batchBuffer := batchBuffer h @ [message]\<rparr>
      in if length (batchBuffer h1) \<ge> maxBatchSize then flushBatch h1
         else if batchTimer h1 = None
         then (let (t, h2) = time_AfterFunc h1 in h2\<lparr>batchTimer := Some t\<rparr>)
         else h1)"
  by (simp add: BroadcastMessageBatched_def BroadcastMessageBatched_locked_def flushBatch_def
      complete_def Let_def split: prod.splits)

lemma batchTimerFunc_seq:
  "batchTimerFunc h = (if batchTimer h \<noteq> None then flushBatch h else h)"
  by (simp add: batchTimerFunc_def batchTimerFunc_locked_def flushBatch_def complete_def)


subsection \<open>Origin check\<close>

lemma originLoop_verdict: "snd (originLoop origin xs) = (origin \<in> set xs)"
  by (induction xs) auto

lemma ServeWS_refused:
  "\<not> snd (Upgrade r) \<Longrightarrow>
   ServeWS r h = h\<lparr>logs := logs h @ fst (Upgrade r) @ [LogUpgradeError]\<rparr>"
  by (cases "Upgrade r") (simp add: ServeWS_def log_Printf_def)

lemma ServeWS_accepted:
  "snd (Upgrade r) \<Longrightarrow>
   ServeWS r h =
     h\<lparr>clients := (clients h)(nextClient h \<mapsto> True),
       sendq := (sendq h)(nextClient h \<mapsto> make_chan),
       nextClient := Suc (nextClient h),
       logs := logs h @ fst (Upgrade r) @
         [LogClientConnected (card (dom ((clients h)(nextClient h \<mapsto> True))))]\<rparr>"
  by (cases "Upgrade r")
     (simp add: ServeWS_def Run_register_def log_Printf_def len_clients_def Let_def)

text \<open>
  C9. The origin check accepts a request that has no (or an empty) \<open>Origin\<close> header,
  accepts a request whose origin is an entry of the allow-list, and rejects every request
  whose origin is non-empty and not on the allow-list. The upgrade succeeds only if the
  check accepts: \<open>ServeWS\<close> constructs and registers a client exactly then, and leaves
  the connections as they are otherwise.
\<close>

theorem CheckOrigin_verdict:
  "snd (CheckOrigin r) =
     (Header_Get_Origin r = [] \<or> Header_Get_Origin r \<in> set allowedOrigins) \<and>
   snd (Upgrade r) = (handshakeOk r \<and> snd (CheckOrigin r)) \<and>
   clients (ServeWS r h) =
     (if snd (Upgrade r) then (clients h)(nextClient h \<mapsto> True) else clients h) \<and>
   sendq (ServeWS r h) =
     (if snd (Upgrade r) then (sendq h)(nextClient h \<mapsto> make_chan) else sendq h)"
  by (simp add: CheckOrigin_def Let_def originLoop_verdict Upgrade_def ServeWS_refused
      ServeWS_accepted)

subsection \<open>The connection registry\<close>

lemma try_send_room:
  "sendq h c = Some ch \<Longrightarrow> \<not> closed ch \<Longrightarrow> length (buf ch) < sendCap \<Longrightarrow>
   try_send m c h = Inr (h\<lparr>sendq := (sendq h)(c \<mapsto> ch\<lparr>buf := buf ch @ [m]\<rparr>)\<rparr>)"
  by (simp add: try_send_def)

lemma delete_and_close_active:
  "sendq h c = Some ch \<Longrightarrow> \<not> closed ch \<Longrightarrow> c \<in> dom (clients h) \<Longrightarrow>
   delete_and_close c h =
     Inr (h\<lparr>clients := (clients h)(c := None),
            sendq := (sendq h)(c \<mapsto> ch\<lparr>closed := True, closes := Suc (closes ch)\<rparr>)\<rparr>)"
  by (simp add: delete_and_close_def close_send_def close_chan_def)

lemma delete_and_close_absent:
  "c \<notin> dom (clients h) \<Longrightarrow> delete_and_close c h = Inr h"
  by (simp add: delete_and_close_def)

lemma try_send_full:
  "sendq h c = Some ch \<Longrightarrow> \<not> closed ch \<Longrightarrow> \<not> length (buf ch) < sendCap \<Longrightarrow>
   c \<in> dom (clients h) \<Longrightarrow>
   try_send m c h =
     Inr (h\<lparr>clients := (clients h)(c := None),
            sendq := (sendq h)(c \<mapsto> ch\<lparr>closed := True, closes := Suc (closes ch)\<rparr>)\<rparr>)"
  by (simp add: try_send_def delete_and_close_active)

lemma deliver_result:
  "deliverable h cs \<Longrightarrow> \<exists>h'. deliver m cs h = Inr h' \<and> delivered m cs h h'"
proof (induction cs arbitrary: h)
  case Nil
  then show ?case by (simp add: delivered_def)
next
  case (Cons c cs)
  from Cons.prems obtain ch where ch: "sendq h c = Some ch" "\<not> closed ch" "c \<in> dom (clients h)"
    and dist: "c \<notin> set cs" "distinct cs"
    and rest: "\<forall>x \<in> set cs. x \<in> dom (clients h) \<and> (\<exists>ch. sendq h x = Some ch \<and> \<not> closed ch)"
    by (auto simp: deliverable_def)
  define h1 where "h1 = (if length (buf ch) < sendCap
     then h\<lparr>sendq := (sendq h)(c \<mapsto> ch\<lparr>buf := buf ch @ [m]\<rparr>)\<rparr>
     else h\<lparr>clients := (clients h)(c := None),
            sendq := (sendq h)(c \<mapsto> ch\<lparr>closed := True, closes := Suc (closes ch)\<rparr>)\<rparr>)"
  have step: "try_send m c h = Inr h1"
    using ch by (simp add: h1_def try_send_room try_send_full)
  have frame: "\<forall>x. x \<noteq> c \<longrightarrow> sendq h1 x = sendq h x \<and> clients h1 x = clients h x"
    by (simp add: h1_def)
  have "deliverable h1 cs"
  proof -
    have "x \<in> dom (clients h1) \<and> (\<exists>ch. sendq h1 x = Some ch \<and> \<not> closed ch)"
      if x: "x \<in> set cs" for x
    proof -
      from x dist have "x \<noteq> c" by auto
      with frame have "sendq h1 x = sendq h x" "clients h1 x = clients h x" by auto
      with rest x show ?thesis by (auto simp: dom_def)
    qed
    with dist show ?thesis by (simp add: deliverable_def)
  qed
  from Cons.IH[OF this] obtain h' where h': "deliver m cs h1 = Inr h'" "delivered m cs h1 h'"
    by blast
  have "delivered m (c # cs) h h'"
    using h'(2) dist ch frame unfolding delivered_def
    apply (intro conjI)
    subgoal by (cases "length (buf ch) < sendCap") (simp_all add: h1_def)
    subgoal by auto
    subgoal by (auto simp: h1_def split: if_splits)
    done
  with step h'(1) show ?case by simp
qed

lemma conn_inv_iff:
  "conn_inv h \<Longrightarrow> sendq h c = Some ch \<Longrightarrow> (c \<in> dom (clients h)) = (\<not> closed ch)"
  unfolding conn_inv_def by (metis option.inject)

lemma conn_inv_closes:
  "conn_inv h \<Longrightarrow> sendq h c = Some ch \<Longrightarrow> closes ch = (if closed ch then 1 else 0)"
  unfolding conn_inv_def by blast

lemma conn_inv_active:
  "conn_inv h \<Longrightarrow> c \<in> dom (clients h) \<Longrightarrow> \<exists>ch. sendq h c = Some ch \<and> \<not> closed ch"
  unfolding conn_inv_def by blast

lemma conn_inv_fresh:
  "conn_inv h \<Longrightarrow> sendq h (nextClient h) = None"
  unfolding conn_inv_def by (metis domIff less_irrefl)

lemma conn_inv_True:
  "conn_inv h \<Longrightarrow> c \<in> dom (clients h) \<Longrightarrow> clients h c = Some True"
  unfolding conn_inv_def by (metis (full_types) domD)

lemma conn_inv_frame:
  "clients h' = clients h \<Longrightarrow> sendq h' = sendq h \<Longrightarrow> nextClient h' = nextClient h \<Longrightarrow>
   conn_inv h \<Longrightarrow> conn_inv h'"
  by (simp add: conn_inv_def)

lemma conn_inv_NewHub: "conn_inv NewHub"
  by (simp add: conn_inv_def NewHub_def)

lemma snapshot_deliverable:
  "conn_inv h \<Longrightarrow> is_snapshot h snap \<Longrightarrow> deliverable h snap"
  by (auto simp: is_snapshot_def deliverable_def dest: conn_inv_active)

lemma delivered_nextClient: "delivered m cs h h' \<Longrightarrow> nextClient h' = nextClient h"
proof -
  assume "delivered m cs h h'"
  then have eq: "h' = h\<lparr>clients := clients h', sendq := sendq h'\<rparr>"
    by (simp add: delivered_def)
  show ?thesis by (subst eq) simp
qed

lemma delivered_conn_inv:
  assumes inv: "conn_inv h" and d: "delivered m cs h h'" and ok: "deliverable h cs"
  shows "conn_inv h'"
proof -
  have nc: "nextClient h' = nextClient h"
    using d by (rule delivered_nextClient)
  have out: "sendq h' c = sendq h c \<and> clients h' c = clients h c" if "c \<notin> set cs" for c
    using d that by (simp add: delivered_def)
  show ?thesis
    unfolding conn_inv_def
  proof (intro allI)
    fix c
    show "(c \<in> dom (clients h') \<longrightarrow> (\<exists>ch. sendq h' c = Some ch \<and> \<not> closed ch)) \<and>
          (\<forall>ch. sendq h' c = Some ch \<longrightarrow>
             (c \<notin> dom (clients h') \<longrightarrow> closed ch) \<and>
             closes ch = (if closed ch then 1 else 0)) \<and>
          (c \<in> dom (sendq h') \<longrightarrow> c < nextClient h') \<and>
          clients h' c \<noteq> Some False"
    proof (cases "c \<in> set cs")
      case False
      with out have "sendq h' c = sendq h c" "clients h' c = clients h c" by auto
      with inv nc show ?thesis
        unfolding conn_inv_def dom_def by simp
    next
      case True
      with ok obtain ch where ch: "sendq h c = Some ch" "\<not> closed ch" "c \<in> dom (clients h)"
        by (auto simp: deliverable_def)
      from inv ch have cl: "closes ch = 0" by (simp add: conn_inv_closes)
      from inv ch have lt: "c < nextClient h" unfolding conn_inv_def by blast
      from inv have nf: "clients h c \<noteq> Some False" unfolding conn_inv_def by blast
      show ?thesis
      proof (cases "length (buf ch) < sendCap")
        case room: True
        with d True ch have "sendq h' c = Some (ch\<lparr>buf := buf ch @ [m]\<rparr>)" "clients h' c = clients h c"
          by (auto simp: delivered_def)
        with ch cl lt nf nc show ?thesis by (auto simp: dom_def)
      next
        case full: False
        with d True ch have "sendq h' c = Some (ch\<lparr>closed := True, closes := Suc (closes ch)\<rparr>)"
          "clients h' c = None"
          by (auto simp: delivered_def)
        with ch cl lt nf nc show ?thesis by (auto simp: dom_def)
      qed
    qed
  qed
qed

lemma queues_step_same: "sendq h' = sendq h \<Longrightarrow> queues_step h h'"
  unfolding queues_step_def by (metis drop0)

lemma flushBatch_conns [simp]:
  "clients (flushBatch h) = clients h" "sendq (flushBatch h) = sendq h"
  "nextClient (flushBatch h) = nextClient h"
  by (simp_all add: flushBatch_seq stop_batchTimer_def timer_Stop_def log_Printf_def Let_def
      split: option.splits)

lemma Shutdown_conns [simp]:
  "clients (Shutdown h) = clients h" "sendq (Shutdown h) = sendq h"
  "nextClient (Shutdown h) = nextClient h"
  by (simp_all add: Shutdown_seq stop_batchTimer_def timer_Stop_def Let_def split: option.splits)

lemma BroadcastMessage_conns [simp]:
  "clients (BroadcastMessage t d h) = clients h" "sendq (BroadcastMessage t d h) = sendq h"
  "nextClient (BroadcastMessage t d h) = nextClient h"
  by (simp_all add: BroadcastMessage_def log_Printf_def Let_def split: option.splits)

lemma BroadcastMessageBatched_conns [simp]:
  "clients (BroadcastMessageBatched t d h) = clients h"
  "sendq (BroadcastMessageBatched t d h) = sendq h"
  "nextClient (BroadcastMessageBatched t d h) = nextClient h"
  by (simp_all add: BroadcastMessageBatched_seq time_AfterFunc_def Let_def)

lemma batchTimerFunc_conns [simp]:
  "clients (batchTimerFunc h) = clients h" "sendq (batchTimerFunc h) = sendq h"
  "nextClient (batchTimerFunc h) = nextClient h"
  by (simp_all add: batchTimerFunc_seq)

lemma timer_expires_conns:
  "timer_expires t h = Some h' \<Longrightarrow>
   clients h' = clients h \<and> sendq h' = sendq h \<and> nextClient h' = nextClient h"
  by (auto simp: timer_expires_def split: option.splits if_splits)

lemma timer_callback_conns:
  "timer_callback t h = Some h' \<Longrightarrow>
   clients h' = clients h \<and> sendq h' = sendq h \<and> nextClient h' = nextClient h"
  by (auto simp: timer_callback_def split: if_splits)

lemma ServeWS_step:
  assumes inv: "conn_inv h"
  shows "conn_inv (ServeWS r h) \<and> queues_step h (ServeWS r h)"
proof (cases "snd (Upgrade r)")
  case False
  with inv show ?thesis by (simp add: ServeWS_refused conn_inv_frame queues_step_same)
next
  case True
  define c where "c = nextClient h"
  have fresh: "sendq h c = None" using inv by (simp add: c_def conn_inv_fresh)
  have cl: "clients (ServeWS r h) = (clients h)(c \<mapsto> True)"
    and sq: "sendq (ServeWS r h) = (sendq h)(c \<mapsto> make_chan)"
    and nc: "nextClient (ServeWS r h) = Suc c"
    using True by (simp_all add: ServeWS_accepted c_def)
  have "conn_inv (ServeWS r h)"
    using inv fresh unfolding conn_inv_def cl sq nc
    by (auto simp: make_chan_def c_def less_Suc_eq dom_def)
  moreover have "queues_step h (ServeWS r h)"
    unfolding queues_step_def sq using fresh by (auto intro: exI[of _ 0])
  ultimately show ?thesis by simp
qed

lemma Run_unregister_active:
  "sendq h c = Some ch \<Longrightarrow> \<not> closed ch \<Longrightarrow> c \<in> dom (clients h) \<Longrightarrow>
   Run_unregister c h =
     Inr (h\<lparr>clients := (clients h)(c := None),
            sendq := (sendq h)(c \<mapsto> ch\<lparr>closed := True, closes := Suc (closes ch)\<rparr>),
            logs := logs h @ [LogClientDisconnected (card (dom ((clients h)(c := None))))]\<rparr>)"
  by (simp add: Run_unregister_def delete_and_close_active log_Printf_def len_clients_def)

lemma Run_unregister_absent:
  "c \<notin> dom (clients h) \<Longrightarrow>
   Run_unregister c h = Inr (h\<lparr>logs := logs h @ [LogClientDisconnected (card (dom (clients h)))]\<rparr>)"
  by (simp add: Run_unregister_def delete_and_close_absent log_Printf_def len_clients_def)

lemma Run_unregister_step:
  assumes inv: "conn_inv h"
  shows "\<exists>h'. Run_unregister c h = Inr h' \<and> conn_inv h' \<and> queues_step h h'"
proof (cases "c \<in> dom (clients h)")
  case False
  with inv show ?thesis
    by (simp add: Run_unregister_absent conn_inv_frame queues_step_same)
next
  case True
  with inv obtain ch where ch: "sendq h c = Some ch" "\<not> closed ch"
    by (blast dest: conn_inv_active)
  define h' where "h' = h\<lparr>clients := (clients h)(c := None),
            sendq := (sendq h)(c \<mapsto> ch\<lparr>closed := True, closes := Suc (closes ch)\<rparr>),
            logs := logs h @ [LogClientDisconnected (card (dom ((clients h)(c := None))))]\<rparr>"
  have run: "Run_unregister c h = Inr h'"
    using ch True by (simp add: Run_unregister_active h'_def)
  from inv ch have cl: "closes ch = 0" by (simp add: conn_inv_closes)
  have "conn_inv h'"
    using inv ch cl unfolding conn_inv_def h'_def
    by (auto simp: dom_def)
  moreover have "queues_step h h'"
    unfolding queues_step_def h'_def using True ch by (auto intro: exI[of _ 0])
  ultimately show ?thesis using run by simp
qed

lemma writePump_recv_step:
  assumes inv: "conn_inv h" and w: "writePump_recv c k h = Some h'"
  shows "conn_inv h' \<and> queues_step h h'"
proof -
  from w obtain ch where ch: "sendq h c = Some ch"
    and h': "h' = h\<lparr>sendq := (sendq h)(c \<mapsto> ch\<lparr>buf := drop k (buf ch)\<rparr>)\<rparr>"
    by (auto simp: writePump_recv_def split: option.splits if_splits)
  have "conn_inv h'"
    using inv ch unfolding conn_inv_def h'
    by (auto simp: dom_def)
  moreover have "queues_step h h'"
    unfolding queues_step_def h' using ch by (auto intro: exI[of _ 0])
  ultimately show ?thesis by simp
qed

lemma delivered_queues_step:
  assumes d: "delivered m cs h h'" and ok: "deliverable h cs"
  shows "queues_step h h'"
  unfolding queues_step_def
proof (intro allI impI)
  fix c ch assume ch: "sendq h c = Some ch"
  show "\<exists>ch'. sendq h' c = Some ch' \<and>
           (closed ch \<longrightarrow> closed ch' \<and> (\<exists>k. buf ch' = drop k (buf ch))) \<and>
           (\<not> closed ch \<and> closed ch' \<longrightarrow> c \<in> dom (clients h) \<and> c \<notin> dom (clients h'))"
  proof (cases "c \<in> set cs")
    case False
    with d have "sendq h' c = sendq h c" by (simp add: delivered_def)
    with ch show ?thesis by (auto intro: exI[of _ 0])
  next
    case True
    with ok ch have opn: "\<not> closed ch" and act: "c \<in> dom (clients h)"
      by (auto simp: deliverable_def)
    show ?thesis
    proof (cases "length (buf ch) < sendCap")
      case room: True
      with d True ch have "sendq h' c = Some (ch\<lparr>buf := buf ch @ [m]\<rparr>)"
        by (auto simp: delivered_def)
      with opn show ?thesis by simp
    next
      case full: False
      with d True ch have "sendq h' c = Some (ch\<lparr>closed := True, closes := Suc (closes ch)\<rparr>)"
        "clients h' c = None"
        by (auto simp: delivered_def)
      with opn act show ?thesis by (simp add: dom_def)
    qed
  qed
qed

lemma Run_broadcast_step:
  assumes inv: "conn_inv h" and r: "Run_broadcast snap h = Some res"
  shows "\<exists>h'. res = Inr h' \<and> conn_inv h' \<and> queues_step h h'"
proof -
  from r obtain message rest where b: "broadcast h = message # rest"
    and snap: "is_snapshot h snap"
    and res: "res = deliver message snap (h\<lparr>broadcast := rest\<rparr>)"
    by (auto simp: Run_broadcast_def split: list.splits if_splits)
  define h0 where "h0 = h\<lparr>broadcast := rest\<rparr>"
  have inv0: "conn_inv h0" using inv by (simp add: h0_def conn_inv_frame)
  have "is_snapshot h0 snap" using snap by (simp add: is_snapshot_def h0_def)
  with inv0 have ok: "deliverable h0 snap" by (rule snapshot_deliverable)
  from deliver_result[OF ok] obtain h' where h': "deliver message snap h0 = Inr h'"
    "delivered message snap h0 h'" by blast
  have "conn_inv h'" using inv0 h'(2) ok by (rule delivered_conn_inv)
  moreover have "queues_step h0 h'" using h'(2) ok by (rule delivered_queues_step)
  then have "queues_step h h'" by (simp add: queues_step_def h0_def)
  ultimately show ?thesis using res h'(1) by (simp add: h0_def)
qed

lemma exec_step:
  assumes inv: "conn_inv h" and e: "exec e h = Some res"
  shows "\<exists>h'. res = Inr h' \<and> conn_inv h' \<and> queues_step h h'"
proof (cases e)
  case (Connect r)
  with e inv show ?thesis using ServeWS_step[OF inv, of r] by auto
next
  case (Unregister c)
  with e inv show ?thesis using Run_unregister_step[OF inv, of c] by auto
next
  case (Deliver snap)
  with e inv show ?thesis using Run_broadcast_step[OF inv, of snap res] by auto
next
  case (WritePump c k)
  with e inv show ?thesis using writePump_recv_step[OF inv, of c k] by auto
next
  case (Broadcast t d)
  with e inv show ?thesis by (auto simp: conn_inv_frame queues_step_same)
next
  case (BroadcastBatched t d)
  with e inv show ?thesis by (auto simp: conn_inv_frame queues_step_same)
next
  case (Elapse d)
  with e inv show ?thesis by (auto simp: conn_inv_frame queues_step_same)
next
  case (TimerExpires t)
  with e inv show ?thesis by (auto dest!: timer_expires_conns simp: conn_inv_frame queues_step_same)
next
  case (TimerCallback t)
  with e inv show ?thesis by (auto dest!: timer_callback_conns simp: conn_inv_frame queues_step_same)
next
  case ShutdownCall
  with e inv show ?thesis by (auto simp: conn_inv_frame queues_step_same)
qed

lemma execs_conn_inv:
  "conn_inv h \<Longrightarrow> execs es h = Some res \<Longrightarrow> \<exists>h'. res = Inr h' \<and> conn_inv h'"
proof (induction es arbitrary: h)
  case Nil
  then show ?case by auto
next
  case (Cons e es)
  from Cons.prems(2) obtain r1 where r1: "exec e h = Some r1"
    by (auto split: option.splits)
  from exec_step[OF Cons.prems(1) r1] obtain h1 where h1: "r1 = Inr h1" "conn_inv h1" by blast
  with Cons.prems(2) r1 have "execs es h1 = Some res" by simp
  with Cons.IH[OF h1(2)] show ?case by blast
qed

lemma exec_no_panic: "conn_inv h \<Longrightarrow> exec e h \<noteq> Some (Inl p)"
  using exec_step[of h e "Inl p"] by auto

lemma execs_no_panic: "conn_inv h \<Longrightarrow> execs es h \<noteq> Some (Inl p)"
  using execs_conn_inv[of h es "Inl p"] by auto

lemma execs_closed_stays:
  "conn_inv h \<Longrightarrow> execs es h = Some (Inr h') \<Longrightarrow> sendq h c = Some ch \<Longrightarrow> closed ch \<Longrightarrow>
   \<exists>ch'. sendq h' c = Some ch' \<and> closed ch'"
proof (induction es arbitrary: h ch)
  case Nil
  then show ?case by auto
next
  case (Cons e es)
  from Cons.prems(2) obtain r1 where r1: "exec e h = Some r1"
    by (auto split: option.splits)
  from exec_step[OF Cons.prems(1) r1] obtain h1 where h1: "r1 = Inr h1" "conn_inv h1"
    "queues_step h h1" by blast
  from h1(3) Cons.prems(3,4) obtain ch1 where ch1: "sendq h1 c = Some ch1" "closed ch1"
    unfolding queues_step_def by blast
  from Cons.prems(2) r1 h1(1) have "execs es h1 = Some (Inr h')" by simp
  from Cons.IH[OF h1(2) this ch1] show ?case .
qed

text \<open>
  C2. In every state that a schedule reaches from \<open>NewHub\<close>, a constructed connection is
  in the active set if and only if its \<open>send\<close> channel is open, and its channel has been
  closed once if it is closed and never otherwise. No schedule panics (no send on a
  closed channel, no second close), no step from such a state panics, and every step
  from such a state keeps the channels: a closed channel stays closed and is never
  added to, and a channel is closed only in the step that removes its client from the
  active set.
\<close>

theorem hub_active_iff_open:
  "execs es NewHub \<noteq> Some (Inl p) \<and>
   (\<forall>h. execs es NewHub = Some (Inr h) \<longrightarrow>
      dom (clients h) \<subseteq> dom (sendq h) \<and>
      (\<forall>c ch. sendq h c = Some ch \<longrightarrow>
         (c \<in> dom (clients h)) = (\<not> closed ch) \<and>
         closes ch = (if closed ch then 1 else 0)) \<and>
      (\<forall>e q. exec e h \<noteq> Some (Inl q)) \<and>
      (\<forall>e h' c ch. exec e h = Some (Inr h') \<and> sendq h c = Some ch \<longrightarrow>
         (\<exists>ch'. sendq h' c = Some ch' \<and>
            (closed ch \<longrightarrow> closed ch' \<and> (\<exists>k. buf ch' = drop k (buf ch))) \<and>
            (\<not> closed ch \<and> closed ch' \<longrightarrow>
               c \<in> dom (clients h) \<and> c \<notin> dom (clients h')))))"
proof (intro conjI allI impI)
  show "execs es NewHub \<noteq> Some (Inl p)"
    using conn_inv_NewHub by (rule execs_no_panic)
next
  fix h assume "execs es NewHub = Some (Inr h)"
  with conn_inv_NewHub have inv: "conn_inv h"
    using execs_conn_inv by blast
  show "dom (clients h) \<subseteq> dom (sendq h)"
    using inv by (auto dest: conn_inv_active)
  show "(c \<in> dom (clients h)) = (\<not> closed ch)" if "sendq h c = Some ch" for c ch
    using inv that by (rule conn_inv_iff)
  show "closes ch = (if closed ch then 1 else 0)" if "sendq h c = Some ch" for c ch
    using inv that by (rule conn_inv_closes)
  show "exec e h \<noteq> Some (Inl q)" for e q
    using inv by (rule exec_no_panic)
  show "\<exists>ch'. sendq h' c = Some ch' \<and>
            (closed ch \<longrightarrow> closed ch' \<and> (\<exists>k. buf ch' = drop k (buf ch))) \<and>
            (\<not> closed ch \<and> closed ch' \<longrightarrow>
               c \<in> dom (clients h) \<and> c \<notin> dom (clients h'))"
    if "exec e h = Some (Inr h') \<and> sendq h c = Some ch" for e h' c ch
  proof -
    from that exec_step[OF inv, of e "Inr h'"] have "queues_step h h'" by simp
    with that show ?thesis unfolding queues_step_def by blast
  qed
qed

lemmas run_defs =
  NewHub_def ServeWS_def Upgrade_def CheckOrigin_def Header_Get_Origin_def
  Run_register_def Run_unregister_def delete_and_close_def close_send_def close_chan_def
  try_send_def Run_broadcast_def is_snapshot_def log_Printf_def len_clients_def make_chan_def
  BroadcastMessage_def broadcastCap_def sendCap_def writePump_recv_def Let_def

theorem hub_active_iff_open_witness:
  "\<exists>h ch. execs [Connect \<lparr>originHeader = None, handshakeOk = True\<rparr>,
                  Connect \<lparr>originHeader = None, handshakeOk = True\<rparr>,
                  Broadcast ''x'' (PInt 1), Deliver [1, 0], Unregister 0] NewHub = Some (Inr h) \<and>
     sendq h 0 = Some ch \<and> (0 \<in> dom (clients h)) = (\<not> closed ch) \<and>
     closes ch = (if closed ch then 1 else 0) \<and> closed ch"
proof -
  let ?es = "[Connect \<lparr>originHeader = None, handshakeOk = True\<rparr>,
              Connect \<lparr>originHeader = None, handshakeOk = True\<rparr>,
              Broadcast ''x'' (PInt 1), Deliver [1, 0], Unregister 0]"
  obtain h ch where h: "execs ?es NewHub = Some (Inr h)" and ch: "sendq h 0 = Some ch"
    and c0: "0 \<notin> dom (clients h)"
    by (simp add: run_defs)
  from hub_active_iff_open[of ?es SendOnClosedChannel] h ch
  have "(0 \<in> dom (clients h)) = (\<not> closed ch) \<and> closes ch = (if closed ch then 1 else 0)"
    by blast
  with h ch c0 show ?thesis by blast
qed

lemma delivered_fields:
  assumes "delivered m cs h h'"
  shows "h' = h\<lparr>clients := clients h', sendq := sendq h'\<rparr>"
  using assms by (simp add: delivered_def)

text \<open>
  C1. A delivery pass of \<open>Run\<close> over any snapshot, from a state that satisfies the
  connection invariant, does not panic. A snapshotted connection whose \<open>send\<close> channel
  is full is removed from the active set and its channel is closed (for the first and
  only time: \<open>closes\<close> is 1), nothing being added to it; whatever the system does
  afterwards (also further broadcasts), the connection stays out of the active set and
  its channel has been closed exactly once. Every other snapshotted connection stays
  active and has the message appended to its queue, whatever happens to the others; a
  connection outside the active set is not touched; no other field changes but
  \<open>h.broadcast\<close>, which loses the delivered message.
\<close>

theorem broadcast_evicts_full:
  assumes inv: "conn_inv h" and b: "broadcast h = message # rest"
    and snap: "is_snapshot h snap"
  shows "\<exists>h'. Run (BroadcastReq snap) h = Some (Inr h') \<and>
           h' = h\<lparr>broadcast := rest, clients := clients h', sendq := sendq h'\<rparr> \<and>
           (\<forall>c. c \<notin> dom (clients h) \<longrightarrow>
                c \<notin> dom (clients h') \<and> sendq h' c = sendq h c) \<and>
           (\<forall>c ch. c \<in> dom (clients h) \<and> sendq h c = Some ch \<longrightarrow>
              (if queue_full h c
               then c \<notin> dom (clients h') \<and>
                    sendq h' c = Some (ch\<lparr>closed := True, closes := 1\<rparr>) \<and>
                    (\<forall>es h''. execs es h' = Some (Inr h'') \<longrightarrow>
                       c \<notin> dom (clients h'') \<and>
                       (\<exists>ch''. sendq h'' c = Some ch'' \<and> closed ch'' \<and> closes ch'' = 1))
               else clients h' c = clients h c \<and>
                    sendq h' c = Some (ch\<lparr>buf := buf ch @ [message]\<rparr>)))"
proof -
  define h0 where "h0 = h\<lparr>broadcast := rest\<rparr>"
  have inv0: "conn_inv h0" using inv by (simp add: h0_def conn_inv_frame)
  have "is_snapshot h0 snap" using snap by (simp add: is_snapshot_def h0_def)
  with inv0 have ok: "deliverable h0 snap" by (rule snapshot_deliverable)
  from deliver_result[OF ok] obtain h' where run: "deliver message snap h0 = Inr h'"
    and d: "delivered message snap h0 h'" by blast
  have inv': "conn_inv h'" using inv0 d ok by (rule delivered_conn_inv)
  have r: "Run (BroadcastReq snap) h = Some (Inr h')"
    using b snap run by (simp add: Run_broadcast_def h0_def)
  have f: "h' = h\<lparr>broadcast := rest, clients := clients h', sendq := sendq h'\<rparr>"
    using delivered_fields[OF d] by (simp add: h0_def)
  have dom_snap: "set snap = dom (clients h)" using snap by (simp add: is_snapshot_def)
  have out: "c \<notin> dom (clients h') \<and> sendq h' c = sendq h c" if "c \<notin> dom (clients h)" for c
  proof -
    from that dom_snap have "c \<notin> set snap" by simp
    with d have "sendq h' c = sendq h0 c" "clients h' c = clients h0 c"
      by (simp_all add: delivered_def)
    with that show ?thesis by (simp add: h0_def dom_def)
  qed
  have inn: "if queue_full h c
               then c \<notin> dom (clients h') \<and>
                    sendq h' c = Some (ch\<lparr>closed := True, closes := 1\<rparr>) \<and>
                    (\<forall>es h''. execs es h' = Some (Inr h'') \<longrightarrow>
                       c \<notin> dom (clients h'') \<and>
                       (\<exists>ch''. sendq h'' c = Some ch'' \<and> closed ch'' \<and> closes ch'' = 1))
               else clients h' c = clients h c \<and>
                    sendq h' c = Some (ch\<lparr>buf := buf ch @ [message]\<rparr>)"
    if c: "c \<in> dom (clients h) \<and> sendq h c = Some ch" for c ch
  proof (cases "queue_full h c")
    case False
    with c have room: "length (buf ch) < sendCap" by (simp add: queue_full_def)
    from c dom_snap have "c \<in> set snap" "sendq h0 c = Some ch" by (simp_all add: h0_def)
    with d room have "sendq h' c = Some (ch\<lparr>buf := buf ch @ [message]\<rparr>)"
      "clients h' c = clients h0 c"
      by (auto simp: delivered_def)
    with False show ?thesis by (simp add: h0_def)
  next
    case True
    with c have full: "\<not> length (buf ch) < sendCap" by (simp add: queue_full_def)
    from inv c have "\<not> closed ch" using conn_inv_iff[of h c ch] by simp
    with inv c have "closes ch = 0" using conn_inv_closes[of h c ch] by simp
    moreover from c dom_snap have "c \<in> set snap" "sendq h0 c = Some ch" by (simp_all add: h0_def)
    with d full have "sendq h' c = Some (ch\<lparr>closed := True, closes := Suc (closes ch)\<rparr>)"
      "clients h' c = None"
      by (auto simp: delivered_def)
    ultimately have s': "sendq h' c = Some (ch\<lparr>closed := True, closes := 1\<rparr>)"
      and c': "c \<notin> dom (clients h')" by (simp_all add: dom_def)
    have later: "c \<notin> dom (clients h'') \<and>
                 (\<exists>ch''. sendq h'' c = Some ch'' \<and> closed ch'' \<and> closes ch'' = 1)"
      if e: "execs es h' = Some (Inr h'')" for es h''
    proof -
      from execs_conn_inv[OF inv' e] have inv'': "conn_inv h''" by simp
      from execs_closed_stays[OF inv' e s'] obtain ch'' where
        ch'': "sendq h'' c = Some ch''" "closed ch''" by auto
      with inv'' show ?thesis
        using conn_inv_closes[of h'' c ch''] conn_inv_iff[of h'' c ch''] by auto
    qed
    with True s' c' show ?thesis by simp
  qed
  from r f out inn show ?thesis by blast
qed

theorem broadcast_evicts_full_witness:
  "conn_inv slow_and_fast \<and> broadcast slow_and_fast = [JNumber 7] \<and>
   is_snapshot slow_and_fast [1, 0] \<and>
   (\<exists>h'. Run (BroadcastReq [1, 0]) slow_and_fast = Some (Inr h') \<and>
      0 \<notin> dom (clients h') \<and>
      sendq h' 0 = Some \<lparr>buf = replicate 256 JNull, closed = True, closes = 1\<rparr> \<and>
      clients h' 1 = Some True \<and>
      sendq h' 1 = Some \<lparr>buf = [JNumber 7], closed = False, closes = 0\<rparr>)"
proof -
  have inv: "conn_inv slow_and_fast"
    by (auto simp: conn_inv_def slow_and_fast_def NewHub_def make_chan_def split: if_splits)
  have b: "broadcast slow_and_fast = JNumber 7 # []"
    by (simp add: slow_and_fast_def)
  have snap: "is_snapshot slow_and_fast [1, 0]"
    by (auto simp: is_snapshot_def slow_and_fast_def)
  have q0: "queue_full slow_and_fast 0" and q1: "\<not> queue_full slow_and_fast 1"
    by (simp_all add: queue_full_def slow_and_fast_def sendCap_def make_chan_def)
  have s0: "0 \<in> dom (clients slow_and_fast) \<and>
      sendq slow_and_fast 0 = Some \<lparr>buf = replicate 256 JNull, closed = False, closes = 0\<rparr>"
    and s1: "1 \<in> dom (clients slow_and_fast) \<and>
      sendq slow_and_fast 1 = Some \<lparr>buf = [], closed = False, closes = 0\<rparr>"
    and c1: "clients slow_and_fast 1 = Some True"
    by (simp_all add: slow_and_fast_def make_chan_def)
  from broadcast_evicts_full[OF inv b snap] obtain h' where
    r: "Run (BroadcastReq [1, 0]) slow_and_fast = Some (Inr h')"
    and inn: "\<And>c ch. c \<in> dom (clients slow_and_fast) \<and> sendq slow_and_fast c = Some ch \<Longrightarrow>
              (if queue_full slow_and_fast c
               then c \<notin> dom (clients h') \<and>
                    sendq h' c = Some (ch\<lparr>closed := True, closes := 1\<rparr>) \<and>
                    (\<forall>es h''. execs es h' = Some (Inr h'') \<longrightarrow>
                       c \<notin> dom (clients h'') \<and>
                       (\<exists>ch''. sendq h'' c = Some ch'' \<and> closed ch'' \<and> closes ch'' = 1))
               else clients h' c = clients slow_and_fast c \<and>
                    sendq h' c = Some (ch\<lparr>buf := buf ch @ [JNumber 7]\<rparr>))"
    by blast
  from inn[OF s0] q0 have "0 \<notin> dom (clients h')"
    "sendq h' 0 = Some \<lparr>buf = replicate 256 JNull, closed = True, closes = 1\<rparr>" by simp_all
  moreover from inn[OF s1] q1 c1 have "clients h' 1 = Some True"
    "sendq h' 1 = Some \<lparr>buf = [JNumber 7], closed = False, closes = 0\<rparr>" by simp_all
  ultimately show ?thesis using inv b snap r by blast
qed

lemma unregister_repeat:
  "c \<notin> dom (clients h) \<Longrightarrow>
   Run_loop (replicate n (UnregisterReq c)) h =
     Some (Inr (h\<lparr>logs := logs h @ replicate n (LogClientDisconnected (len_clients h))\<rparr>))"
proof (induction n arbitrary: h)
  case 0
  then show ?case by simp
next
  case (Suc n)
  define h1 where "h1 = h\<lparr>logs := logs h @ [LogClientDisconnected (len_clients h)]\<rparr>"
  have 1: "Run_unregister c h = Inr h1"
    using Suc.prems by (simp add: Run_unregister_absent h1_def len_clients_def)
  have "c \<notin> dom (clients h1)" using Suc.prems by (simp add: h1_def)
  from Suc.IH[OF this] 1 show ?case
    by (simp add: h1_def len_clients_def replicate_app_Cons_same)
qed

text \<open>
  C3. Unregistering a constructed connection never panics. After the first call the
  connection is out of the active set and its channel is closed, having been closed
  exactly once, and no other connection is affected. Any number of further
  \<open>unregister\<close> requests for it are handled without a panic and change nothing but the
  log (each writes its "client disconnected" line).
\<close>

theorem unregister_twice:
  assumes inv: "conn_inv h" and ch: "sendq h c = Some ch"
  shows "\<exists>h1. Run_unregister c h = Inr h1 \<and>
           c \<notin> dom (clients h1) \<and>
           sendq h1 c = Some (ch\<lparr>closed := True, closes := 1\<rparr>) \<and>
           (\<forall>c'. c' \<noteq> c \<longrightarrow> clients h1 c' = clients h c' \<and> sendq h1 c' = sendq h c') \<and>
           (\<forall>n. Run_loop (replicate n (UnregisterReq c)) h1 =
              Some (Inr (h1\<lparr>logs := logs h1 @
                 replicate n (LogClientDisconnected (len_clients h1))\<rparr>)))"
proof (cases "c \<in> dom (clients h)")
  case True
  with inv ch have opn: "\<not> closed ch" and z: "closes ch = 0"
    using conn_inv_iff[of h c ch] conn_inv_closes[of h c ch] by simp_all
  define h1 where "h1 = h\<lparr>clients := (clients h)(c := None),
            sendq := (sendq h)(c \<mapsto> ch\<lparr>closed := True, closes := Suc (closes ch)\<rparr>),
            logs := logs h @ [LogClientDisconnected (card (dom ((clients h)(c := None))))]\<rparr>"
  have run: "Run_unregister c h = Inr h1"
    using ch opn True by (simp add: Run_unregister_active h1_def)
  have gone: "c \<notin> dom (clients h1)" by (simp add: h1_def)
  have "sendq h1 c = Some (ch\<lparr>closed := True, closes := 1\<rparr>)"
    using z by (simp add: h1_def)
  moreover have "\<forall>c'. c' \<noteq> c \<longrightarrow> clients h1 c' = clients h c' \<and> sendq h1 c' = sendq h c'"
    by (simp add: h1_def)
  ultimately show ?thesis using run gone unregister_repeat[OF gone] by blast
next
  case False
  with inv ch have cl: "closed ch" and z: "closes ch = 1"
    using conn_inv_iff[of h c ch] conn_inv_closes[of h c ch] by simp_all
  define h1 where "h1 = h\<lparr>logs := logs h @ [LogClientDisconnected (card (dom (clients h)))]\<rparr>"
  have run: "Run_unregister c h = Inr h1"
    using False by (simp add: Run_unregister_absent h1_def)
  have gone: "c \<notin> dom (clients h1)" using False by (simp add: h1_def)
  have "ch\<lparr>closed := True, closes := 1\<rparr> = ch"
    using cl z by simp
  then have "sendq h1 c = Some (ch\<lparr>closed := True, closes := 1\<rparr>)"
    using ch by (simp add: h1_def)
  moreover have "\<forall>c'. c' \<noteq> c \<longrightarrow> clients h1 c' = clients h c' \<and> sendq h1 c' = sendq h c'"
    by (simp add: h1_def)
  ultimately show ?thesis using run gone unregister_repeat[OF gone] by blast
qed

theorem unregister_twice_witness:
  "conn_inv (ServeWS \<lparr>originHeader = None, handshakeOk = True\<rparr> NewHub) \<and>
   sendq (ServeWS \<lparr>originHeader = None, handshakeOk = True\<rparr> NewHub) 0 = Some make_chan \<and>
   (\<exists>h1. Run_unregister 0 (ServeWS \<lparr>originHeader = None, handshakeOk = True\<rparr> NewHub) = Inr h1 \<and>
      0 \<notin> dom (clients h1) \<and>
      sendq h1 0 = Some \<lparr>buf = [], closed = True, closes = 1\<rparr> \<and>
      Run_loop [UnregisterReq 0, UnregisterReq 0] h1 =
        Some (Inr (h1\<lparr>logs := logs h1 @
          [LogClientDisconnected (len_clients h1), LogClientDisconnected (len_clients h1)]\<rparr>)))"
proof -
  let ?h = "ServeWS \<lparr>originHeader = None, handshakeOk = True\<rparr> NewHub"
  have inv: "conn_inv ?h"
    using ServeWS_step[OF conn_inv_NewHub] by simp
  have ch: "sendq ?h 0 = Some make_chan"
    by (simp add: run_defs)
  from unregister_twice[OF inv ch] obtain h1 where
    "Run_unregister 0 ?h = Inr h1" "0 \<notin> dom (clients h1)"
    "sendq h1 0 = Some (make_chan\<lparr>closed := True, closes := 1\<rparr>)"
    "Run_loop (replicate (Suc (Suc 0)) (UnregisterReq 0)) h1 =
       Some (Inr (h1\<lparr>logs := logs h1 @
          replicate (Suc (Suc 0)) (LogClientDisconnected (len_clients h1))\<rparr>))"
    by blast
  then show ?thesis using inv ch by (simp add: make_chan_def)
qed

lemma try_send_Inr:
  assumes "try_send m c h = Inr h1" and "c \<in> dom (clients h)"
  shows "clients h1 = (if queue_full h c then (clients h)(c := None) else clients h) \<and>
         (\<forall>x. x \<noteq> c \<longrightarrow> sendq h1 x = sendq h x)"
  using assms
  by (auto simp: try_send_def queue_full_def delete_and_close_def close_send_def close_chan_def
      split: option.splits if_splits)

lemma queue_full_cong: "sendq h1 x = sendq h x \<Longrightarrow> queue_full h1 x = queue_full h x"
  by (simp add: queue_full_def)

lemma deliver_dom:
  "distinct cs \<Longrightarrow> set cs \<subseteq> dom (clients h) \<Longrightarrow> deliver m cs h = Inr h' \<Longrightarrow>
   dom (clients h') = dom (clients h) - {c \<in> set cs. queue_full h c}"
proof (induction cs arbitrary: h)
  case Nil
  then show ?case by simp
next
  case (Cons c cs)
  from Cons.prems(3) obtain h1 where 1: "try_send m c h = Inr h1" and 2: "deliver m cs h1 = Inr h'"
    by (auto split: sum.splits)
  from Cons.prems(2) have act: "c \<in> dom (clients h)" by simp
  from try_send_Inr[OF 1 act] have
    cl: "clients h1 = (if queue_full h c then (clients h)(c := None) else clients h)"
    and fr: "\<And>x. x \<noteq> c \<Longrightarrow> sendq h1 x = sendq h x" by auto
  from Cons.prems(1) have nin: "c \<notin> set cs" and dist: "distinct cs" by auto
  have sub: "set cs \<subseteq> dom (clients h1)"
    using Cons.prems(2) nin by (auto simp: cl)
  have same: "queue_full h1 x = queue_full h x" if "x \<in> set cs" for x
  proof -
    from that nin have "x \<noteq> c" by auto
    then have "sendq h1 x = sendq h x" by (rule fr)
    then show ?thesis by (rule queue_full_cong)
  qed
  from Cons.IH[OF dist sub 2]
  have "dom (clients h') = dom (clients h1) - {x \<in> set cs. queue_full h1 x}" .
  also have "{x \<in> set cs. queue_full h1 x} = {x \<in> set cs. queue_full h x}"
    using same by auto
  finally show ?case using nin by (auto simp: cl split: if_splits)
qed

lemma Run_dom:
  assumes "Run r h = Some (Inr h1)"
  shows "dom (clients h1) = spec_request r h (dom (clients h))"
proof (cases r)
  case (RegisterReq c)
  with assms show ?thesis
    by (auto simp: spec_request_def Run_register_def log_Printf_def Let_def)
next
  case (UnregisterReq c)
  with assms show ?thesis
    by (auto simp: spec_request_def Run_unregister_def delete_and_close_def close_send_def
        close_chan_def log_Printf_def split: option.splits if_splits sum.splits)
next
  case (BroadcastReq snap)
  with assms obtain m rest where b: "broadcast h = m # rest" and sn: "is_snapshot h snap"
    and d: "deliver m snap (h\<lparr>broadcast := rest\<rparr>) = Inr h1"
    by (auto simp: Run_broadcast_def split: list.splits if_splits)
  from sn have "distinct snap" "set snap \<subseteq> dom (clients (h\<lparr>broadcast := rest\<rparr>))"
    by (simp_all add: is_snapshot_def)
  from deliver_dom[OF this d] sn
  have "dom (clients h1) = dom (clients h) - {c. queue_full h c}"
    by (auto simp: is_snapshot_def queue_full_def)
  with BroadcastReq show ?thesis by (simp add: spec_request_def)
qed

lemma Run_loop_dom:
  "Run_loop rs h = Some (Inr h') \<Longrightarrow> dom (clients h') = spec_active rs h (dom (clients h))"
proof (induction rs arbitrary: h)
  case Nil
  then show ?case by simp
next
  case (Cons r rs)
  from Cons.prems obtain h1 where 1: "Run r h = Some (Inr h1)" and 2: "Run_loop rs h1 = Some (Inr h')"
    by (auto split: option.splits sum.splits)
  from Cons.IH[OF 2] Run_dom[OF 1] 1 show ?case by simp
qed

text \<open>
  C10. Registering a connection that is already active leaves the active set and the
  count unchanged. And after any sequence of requests that \<open>Run\<close> handles without a
  panic, \<open>GetClientCount\<close> is the number of distinct connections that have been
  registered and not yet unregistered (\<open>spec_active\<close>), starting from the active set of
  the initial state.
\<close>

theorem register_idempotent_count:
  "(c \<in> dom (clients h) \<longrightarrow>
      dom (clients (Run_register c h)) = dom (clients h) \<and>
      GetClientCount (Run_register c h) = GetClientCount h) \<and>
   (Run_loop rs h = Some (Inr h') \<longrightarrow>
      GetClientCount h' = card (spec_active rs h (dom (clients h))))"
proof (intro conjI impI)
  assume "c \<in> dom (clients h)"
  then show d: "dom (clients (Run_register c h)) = dom (clients h)"
    by (auto simp: Run_register_def log_Printf_def Let_def)
  then show "GetClientCount (Run_register c h) = GetClientCount h"
    by (simp add: GetClientCount_def len_clients_def)
next
  assume "Run_loop rs h = Some (Inr h')"
  then show "GetClientCount h' = card (spec_active rs h (dom (clients h)))"
    by (simp add: GetClientCount_def len_clients_def Run_loop_dom)
qed

theorem register_idempotent_count_witness:
  "0 \<in> dom (clients two_clients) \<and>
   dom (clients (Run_register 0 two_clients)) = dom (clients two_clients) \<and>
   GetClientCount (Run_register 0 two_clients) = GetClientCount two_clients \<and>
   (\<exists>h'. Run_loop [RegisterReq 0, RegisterReq 0, UnregisterReq 1] two_clients = Some (Inr h') \<and>
      GetClientCount h' =
        card (spec_active [RegisterReq 0, RegisterReq 0, UnregisterReq 1] two_clients
               (dom (clients two_clients))) \<and>
      GetClientCount h' = 1)"
proof -
  let ?rs = "[RegisterReq 0, RegisterReq 0, UnregisterReq 1]"
  have a: "0 \<in> dom (clients two_clients)"
    by (simp add: two_clients_def run_defs)
  obtain h' where r: "Run_loop ?rs two_clients = Some (Inr h')" and d: "dom (clients h') = {0}"
    by (simp add: two_clients_def run_defs)
  from d have one: "GetClientCount h' = 1"
    by (simp add: GetClientCount_def len_clients_def)
  from register_idempotent_count[of 0 two_clients ?rs h'] a r one show ?thesis by blast
qed

subsection \<open>The batching layer\<close>

text \<open>
  C6. \<open>BroadcastMessage\<close> is a step that can always be taken and always returns, without
  a panic. A payload that cannot be serialised is dropped: the state is unchanged but for
  the log line. When \<open>h.broadcast\<close> is saturated the serialised message is dropped: the
  state is unchanged but for the log line. Otherwise the serialised message is appended to
  \<open>h.broadcast\<close> and nothing else changes.
\<close>

theorem BroadcastMessage_nonblocking:
  "exec (Broadcast eventType data) h = Some (Inr (BroadcastMessage eventType data h)) \<and>
   (marshal (Message eventType data) = None \<longrightarrow>
      BroadcastMessage eventType data h = h\<lparr>logs := logs h @ [LogMarshalError]\<rparr>) \<and>
   (\<forall>jsonData. marshal (Message eventType data) = Some jsonData \<longrightarrow>
      (if length (broadcast h) < broadcastCap
       then BroadcastMessage eventType data h = h\<lparr>broadcast := broadcast h @ [jsonData]\<rparr>
       else BroadcastMessage eventType data h = h\<lparr>logs := logs h @ [LogMessageDropped]\<rparr>))"
  by (simp add: BroadcastMessage_def log_Printf_def)

theorem BroadcastMessage_nonblocking_witness:
  "marshal (Message ''x'' PUnsupported) = None \<and>
   BroadcastMessage ''x'' PUnsupported NewHub = NewHub\<lparr>logs := [LogMarshalError]\<rparr> \<and>
   marshal (Message ''x'' (PInt 1)) = Some (JObject [(''type'', JString ''x''), (''data'', JNumber 1)]) \<and>
   \<not> length (broadcast saturated) < broadcastCap \<and>
   BroadcastMessage ''x'' (PInt 1) saturated = saturated\<lparr>logs := [LogMessageDropped]\<rparr> \<and>
   length (broadcast NewHub) < broadcastCap \<and>
   BroadcastMessage ''x'' (PInt 1) NewHub =
     NewHub\<lparr>broadcast := [JObject [(''type'', JString ''x''), (''data'', JNumber 1)]]\<rparr>"
proof -
  have 1: "marshal (Message ''x'' PUnsupported) = None" by simp
  have 2: "marshal (Message ''x'' (PInt 1)) =
      Some (JObject [(''type'', JString ''x''), (''data'', JNumber 1)])" by simp
  have 3: "\<not> length (broadcast saturated) < broadcastCap"
    by (simp add: saturated_def broadcastCap_def)
  have 4: "length (broadcast NewHub) < broadcastCap"
    by (simp add: NewHub_def broadcastCap_def)
  have l: "logs NewHub = []" "logs saturated = []" "broadcast NewHub = []"
    by (simp_all add: NewHub_def saturated_def)
  from BroadcastMessage_nonblocking[of "''x''" PUnsupported NewHub] 1
    BroadcastMessage_nonblocking[of "''x''" "PInt 1" saturated] 2 3
    BroadcastMessage_nonblocking[of "''x''" "PInt 1" NewHub] 4 l
  show ?thesis by simp
qed

lemma add_all_append: "add_all (xs @ ys) h = add_all ys (add_all xs h)"
  by (induction xs arbitrary: h) simp_all

lemma add_pending:
  "batchTimer h \<noteq> None \<Longrightarrow> length (batchBuffer h) + length ms < maxBatchSize \<Longrightarrow>
   add_all ms h = h\<lparr>batchBuffer := batchBuffer h @ ms\<rparr>"
proof (induction ms arbitrary: h)
  case Nil
  then show ?case by simp
next
  case (Cons m ms)
  have 1: "BroadcastMessageBatched (Type m) (Data m) h = h\<lparr>batchBuffer := batchBuffer h @ [m]\<rparr>"
    using Cons.prems by (auto simp: BroadcastMessageBatched_seq Let_def)
  show ?case using Cons.prems by (simp add: 1 Cons.IH)
qed

lemma add_first:
  "batchBuffer h = [] \<Longrightarrow> batchTimer h = None \<Longrightarrow>
   BroadcastMessageBatched (Type m) (Data m) h =
     h\<lparr>batchBuffer := [m], batchTimer := Some (nextTimer h),
       armed := (armed h)(nextTimer h \<mapsto> now h + batchWindow),
       nextTimer := Suc (nextTimer h)\<rparr>"
  by (simp add: BroadcastMessageBatched_seq Let_def time_AfterFunc_def maxBatchSize_def)

lemma add_below_threshold:
  assumes "batchBuffer h = []" "batchTimer h = None" "ms \<noteq> []" "length ms < maxBatchSize"
  shows "add_all ms h =
     h\<lparr>batchBuffer := ms, batchTimer := Some (nextTimer h),
       armed := (armed h)(nextTimer h \<mapsto> now h + batchWindow),
       nextTimer := Suc (nextTimer h)\<rparr>"
proof -
  from assms(3) obtain m rest where ms: "ms = m # rest" by (cases ms) auto
  show ?thesis using assms(1,2,4)
    by (simp add: ms add_first add_pending)
qed

lemma add_reaches_threshold:
  assumes "batchTimer h = Some t" "length (batchBuffer h) + 1 = maxBatchSize"
  shows "BroadcastMessageBatched (Type m) (Data m) h =
     (let h2 = h\<lparr>batchBuffer := [], batchTimer := None, armed := (armed h)(t := None)\<rparr>
      in case marshal (Message ''batch'' (PMessages (batchBuffer h @ [m]))) of
           None \<Rightarrow> h2\<lparr>logs := logs h @ [LogBatchMarshalError]\<rparr>
         | Some jsonData \<Rightarrow>
             if length (broadcast h) < broadcastCap
             then h2\<lparr>broadcast := broadcast h @ [jsonData]\<rparr>
             else h2\<lparr>logs := logs h @ [LogBatchDropped]\<rparr>)"
  using assms
  by (simp add: BroadcastMessageBatched_seq flushBatch_seq stop_batchTimer_def timer_Stop_def
      log_Printf_def Let_def split: option.splits)

text \<open>
  C4. Starting with nothing pending and no deadline set, \<open>maxBatchSize\<close> sequential
  calls of \<open>BroadcastMessageBatched\<close> leave nothing pending and \<open>h.batchTimer\<close> nil, and
  the timer armed by the first call is no longer armed. None of the first calls flushes
  (after \<open>k\<close> calls, \<open>0 < k < maxBatchSize\<close>, the \<open>k\<close> messages are pending, the
  deadline is armed and nothing has been submitted or logged); the last call flushes
  once: one batch holding all the messages in order is submitted to \<open>h.broadcast\<close> (or,
  when it cannot be serialised or \<open>h.broadcast\<close> is full, dropped with one log line).
\<close>

theorem threshold_flushes_once:
  assumes e: "batchBuffer h = []" and t: "batchTimer h = None"
    and n: "length ms = maxBatchSize"
  shows "batchBuffer (add_all ms h) = [] \<and> batchTimer (add_all ms h) = None \<and>
         armed (add_all ms h) = (armed h)(nextTimer h := None) \<and>
         (\<forall>k. 0 < k \<and> k < maxBatchSize \<longrightarrow>
            batchBuffer (add_all (take k ms) h) = take k ms \<and>
            batchTimer (add_all (take k ms) h) = Some (nextTimer h) \<and>
            armed (add_all (take k ms) h) = (armed h)(nextTimer h \<mapsto> now h + batchWindow) \<and>
            broadcast (add_all (take k ms) h) = broadcast h \<and>
            logs (add_all (take k ms) h) = logs h) \<and>
         (case marshal (Message ''batch'' (PMessages ms)) of
            None \<Rightarrow>
              broadcast (add_all ms h) = broadcast h \<and>
              logs (add_all ms h) = logs h @ [LogBatchMarshalError]
          | Some jsonData \<Rightarrow>
              if length (broadcast h) < broadcastCap
              then broadcast (add_all ms h) = broadcast h @ [jsonData] \<and>
                   logs (add_all ms h) = logs h
              else broadcast (add_all ms h) = broadcast h \<and>
                   logs (add_all ms h) = logs h @ [LogBatchDropped])"
proof -
  have below: "add_all (take k ms) h =
     h\<lparr>batchBuffer := take k ms, batchTimer := Some (nextTimer h),
       armed := (armed h)(nextTimer h \<mapsto> now h + batchWindow),
       nextTimer := Suc (nextTimer h)\<rparr>" if "0 < k \<and> k < maxBatchSize" for k
    using e t that n by (intro add_below_threshold) auto
  define h9 where "h9 = add_all (butlast ms) h"
  from n have ne: "ms \<noteq> []" by (auto simp: maxBatchSize_def)
  have bl: "butlast ms = take 9 ms" using n by (simp add: butlast_conv_take maxBatchSize_def)
  have h9: "h9 = h\<lparr>batchBuffer := butlast ms, batchTimer := Some (nextTimer h),
       armed := (armed h)(nextTimer h \<mapsto> now h + batchWindow),
       nextTimer := Suc (nextTimer h)\<rparr>"
    unfolding h9_def bl by (rule below) (simp add: maxBatchSize_def)
  have split: "ms = butlast ms @ [last ms]" using ne by simp
  have "add_all ms h = BroadcastMessageBatched (Type (last ms)) (Data (last ms)) h9"
    by (subst split) (simp add: add_all_append h9_def)
  also have "\<dots> =
     (let h2 = h9\<lparr>batchBuffer := [], batchTimer := None, armed := (armed h9)(nextTimer h := None)\<rparr>
      in case marshal (Message ''batch'' (PMessages (batchBuffer h9 @ [last ms]))) of
           None \<Rightarrow> h2\<lparr>logs := logs h9 @ [LogBatchMarshalError]\<rparr>
         | Some jsonData \<Rightarrow>
             if length (broadcast h9) < broadcastCap
             then h2\<lparr>broadcast := broadcast h9 @ [jsonData]\<rparr>
             else h2\<lparr>logs := logs h9 @ [LogBatchDropped]\<rparr>)"
    by (rule add_reaches_threshold) (use n in \<open>simp_all add: h9 maxBatchSize_def\<close>)
  finally have final0: "add_all ms h =
     (let h2 = h9\<lparr>batchBuffer := [], batchTimer := None, armed := (armed h9)(nextTimer h := None)\<rparr>
      in case marshal (Message ''batch'' (PMessages (batchBuffer h9 @ [last ms]))) of
           None \<Rightarrow> h2\<lparr>logs := logs h9 @ [LogBatchMarshalError]\<rparr>
         | Some jsonData \<Rightarrow>
             if length (broadcast h9) < broadcastCap
             then h2\<lparr>broadcast := broadcast h9 @ [jsonData]\<rparr>
             else h2\<lparr>logs := logs h9 @ [LogBatchDropped]\<rparr>)" .
  have lg: "logs h9 = logs h" and bc: "broadcast h9 = broadcast h"
    and bb: "batchBuffer h9 @ [last ms] = ms"
    using split by (simp_all add: h9)
  note final = final0[unfolded lg bc bb]
  show ?thesis
  proof (intro conjI allI impI)
    show "batchBuffer (add_all ms h) = []" "batchTimer (add_all ms h) = None"
      "armed (add_all ms h) = (armed h)(nextTimer h := None)"
      by (simp_all add: final h9 Let_def split: option.splits)
    show "case marshal (Message ''batch'' (PMessages ms)) of
            None \<Rightarrow>
              broadcast (add_all ms h) = broadcast h \<and>
              logs (add_all ms h) = logs h @ [LogBatchMarshalError]
          | Some jsonData \<Rightarrow>
              if length (broadcast h) < broadcastCap
              then broadcast (add_all ms h) = broadcast h @ [jsonData] \<and>
                   logs (add_all ms h) = logs h
              else broadcast (add_all ms h) = broadcast h \<and>
                   logs (add_all ms h) = logs h @ [LogBatchDropped]"
      by (simp add: final h9 Let_def split: option.splits)
  next
    fix k assume k: "0 < k \<and> k < maxBatchSize"
    show "batchBuffer (add_all (take k ms) h) = take k ms"
      "batchTimer (add_all (take k ms) h) = Some (nextTimer h)"
      "armed (add_all (take k ms) h) = (armed h)(nextTimer h \<mapsto> now h + batchWindow)"
      "broadcast (add_all (take k ms) h) = broadcast h"
      "logs (add_all (take k ms) h) = logs h"
      by (simp_all add: below[OF k])
  qed
qed

lemmas batch_defs =
  NewHub_def BroadcastMessageBatched_seq flushBatch_seq stop_batchTimer_def timer_Stop_def
  time_AfterFunc_def timer_expires_def timer_callback_def batchTimerFunc_seq Shutdown_seq
  log_Printf_def maxBatchSize_def batchWindow_def broadcastCap_def Let_def

theorem threshold_flushes_once_witness:
  "batchBuffer NewHub = [] \<and> batchTimer NewHub = None \<and>
   length (map tick [0, 1, 2, 3, 4, 5, 6, 7, 8, 9]) = maxBatchSize \<and>
   batchBuffer (add_all (map tick [0, 1, 2, 3, 4, 5, 6, 7, 8, 9]) NewHub) = [] \<and>
   batchTimer (add_all (map tick [0, 1, 2, 3, 4, 5, 6, 7, 8, 9]) NewHub) = None \<and>
   armed (add_all (map tick [0, 1, 2, 3, 4, 5, 6, 7, 8, 9]) NewHub) = Map.empty \<and>
   broadcast (add_all (map tick [0, 1, 2, 3, 4, 5, 6, 7, 8, 9]) NewHub) =
     [batch_json (map tick_json [0, 1, 2, 3, 4, 5, 6, 7, 8, 9])] \<and>
   logs (add_all (map tick [0, 1, 2, 3, 4, 5, 6, 7, 8, 9]) NewHub) = []"
proof -
  define ms where "ms = map tick [0, 1, 2, 3, 4, 5, 6, 7, 8, 9]"
  have e: "batchBuffer NewHub = []" and t: "batchTimer NewHub = None"
    and b: "broadcast NewHub = []" and l: "logs NewHub = []" and a: "armed NewHub = Map.empty"
    by (simp_all add: NewHub_def)
  have n: "length ms = maxBatchSize" by (simp add: ms_def maxBatchSize_def)
  have m: "marshal (Message ''batch'' (PMessages ms)) =
      Some (batch_json (map tick_json [0, 1, 2, 3, 4, 5, 6, 7, 8, 9]))"
    by (simp add: ms_def tick_def tick_json_def batch_json_def)
  from threshold_flushes_once[OF e t n]
  have "batchBuffer (add_all ms NewHub) = [] \<and> batchTimer (add_all ms NewHub) = None \<and>
     armed (add_all ms NewHub) = Map.empty \<and>
     broadcast (add_all ms NewHub) = [batch_json (map tick_json [0, 1, 2, 3, 4, 5, 6, 7, 8, 9])] \<and>
     logs (add_all ms NewHub) = []"
    by (simp add: m b l a broadcastCap_def del: marshal.simps)
  with e t n show ?thesis unfolding ms_def by blast
qed

text \<open>
  C5. Fifteen sequential calls \<open>BroadcastMessageBatched("tick", i)\<close>, \<open>i = 0..14\<close>, on a
  new hub. After the first ten, the batch of the ticks 0 to 9, in order, has been
  submitted and nothing is pending. After all fifteen, nothing more has been submitted:
  the ticks 10 to 14 are pending and timer 1 is armed; no timer can expire before the
  window has elapsed. Once \<open>batchWindow\<close> has elapsed the timer expires and its function
  submits the batch of the ticks 10 to 14, in order. \<open>h.broadcast\<close> then holds exactly
  these two messages of type \<open>batch\<close>, nothing is pending and no timer is left.
\<close>

theorem fifteen_ticks_two_batches:
  "execs (map tick_call [0, 1, 2, 3, 4, 5, 6, 7, 8, 9]) NewHub = Some (Inr after_ten_ticks) \<and>
   execs (map tick_call [10, 11, 12, 13, 14]) after_ten_ticks = Some (Inr after_fifteen_ticks) \<and>
   exec (TimerExpires 1) after_fifteen_ticks = None \<and>
   exec (TimerExpires 0) after_fifteen_ticks = None \<and>
   execs [Elapse batchWindow, TimerExpires 1, TimerCallback 1] after_fifteen_ticks =
     Some (Inr after_window) \<and>
   broadcast after_window =
     [batch_json (map tick_json [0, 1, 2, 3, 4, 5, 6, 7, 8, 9]),
      batch_json (map tick_json [10, 11, 12, 13, 14])] \<and>
   marshal (Message ''batch'' (PMessages (map tick [0, 1, 2, 3, 4, 5, 6, 7, 8, 9]))) =
     Some (batch_json (map tick_json [0, 1, 2, 3, 4, 5, 6, 7, 8, 9])) \<and>
   marshal (Message ''batch'' (PMessages (map tick [10, 11, 12, 13, 14]))) =
     Some (batch_json (map tick_json [10, 11, 12, 13, 14])) \<and>
   batchBuffer after_window = [] \<and> batchTimer after_window = None \<and>
   armed after_window = Map.empty \<and> started after_window = {}"
proof -
  have 1: "execs (map tick_call [0, 1, 2, 3, 4, 5, 6, 7, 8, 9]) NewHub = Some (Inr after_ten_ticks)"
    by (simp add: tick_call_def after_ten_ticks_def batch_defs batch_json_def tick_json_def)
  have 2: "execs (map tick_call [10, 11, 12, 13, 14]) after_ten_ticks = Some (Inr after_fifteen_ticks)"
    by (simp add: tick_call_def after_ten_ticks_def after_fifteen_ticks_def tick_def batch_defs)
  have 3: "exec (TimerExpires 1) after_fifteen_ticks = None"
    "exec (TimerExpires 0) after_fifteen_ticks = None"
    by (simp_all add: after_ten_ticks_def after_fifteen_ticks_def batch_defs)
  have 4: "execs [Elapse batchWindow, TimerExpires 1, TimerCallback 1] after_fifteen_ticks =
     Some (Inr after_window)"
    by (simp add: after_ten_ticks_def after_fifteen_ticks_def after_window_def tick_def
        batch_defs batch_json_def tick_json_def)
  have 5: "marshal (Message ''batch'' (PMessages (map tick [0, 1, 2, 3, 4, 5, 6, 7, 8, 9]))) =
     Some (batch_json (map tick_json [0, 1, 2, 3, 4, 5, 6, 7, 8, 9]))"
    "marshal (Message ''batch'' (PMessages (map tick [10, 11, 12, 13, 14]))) =
     Some (batch_json (map tick_json [10, 11, 12, 13, 14]))"
    by (simp_all add: tick_def tick_json_def batch_json_def)
  have 6: "broadcast after_window =
     [batch_json (map tick_json [0, 1, 2, 3, 4, 5, 6, 7, 8, 9]),
      batch_json (map tick_json [10, 11, 12, 13, 14])]"
    "batchBuffer after_window = []" "batchTimer after_window = None"
    "armed after_window = Map.empty" "started after_window = {}"
    by (simp_all add: after_window_def NewHub_def)
  from 1 2 3 4 5 6 show ?thesis by simp
qed

subsection \<open>Shutdown and the deadline timer\<close>

lemma batch_inv_frame: "batch_part h' = batch_part h \<Longrightarrow> batch_inv h \<Longrightarrow> batch_inv h'"
  by (simp add: batch_part_def batch_inv_def)

lemma batch_inv_NewHub: "batch_inv NewHub"
  by (simp add: batch_inv_def NewHub_def maxBatchSize_def)

lemma flushBatch_batch_inv: "batch_inv h \<Longrightarrow> batch_inv (flushBatch h)"
  by (auto simp: batch_inv_def flushBatch_seq stop_batchTimer_def timer_Stop_def log_Printf_def
      Let_def maxBatchSize_def split: option.splits)

lemma flushBatch_full_batch_inv:
  assumes "\<forall>t d. armed h t = Some d \<longrightarrow> batchTimer h = Some t"
    and "\<forall>t. batchTimer h = Some t \<longrightarrow> t < nextTimer h" and "batchBuffer h \<noteq> []"
  shows "batch_inv (flushBatch h)"
  using assms
  by (auto simp: batch_inv_def flushBatch_seq stop_batchTimer_def timer_Stop_def log_Printf_def
      Let_def maxBatchSize_def split: option.splits)

lemma BroadcastMessageBatched_batch_inv:
  assumes "batch_inv h"
  shows "batch_inv (BroadcastMessageBatched t d h)"
proof (cases "length (batchBuffer h) + 1 \<ge> maxBatchSize")
  case True
  then have "BroadcastMessageBatched t d h = flushBatch (h\<lparr>batchBuffer := batchBuffer h @ [Message t d]\<rparr>)"
    by (simp add: BroadcastMessageBatched_seq Let_def)
  moreover have "batch_inv (flushBatch (h\<lparr>batchBuffer := batchBuffer h @ [Message t d]\<rparr>))"
    using assms by (intro flushBatch_full_batch_inv) (auto simp: batch_inv_def)
  ultimately show ?thesis by simp
next
  case False
  with assms show ?thesis
    by (auto simp: batch_inv_def BroadcastMessageBatched_seq time_AfterFunc_def Let_def
        split: if_splits)
qed

lemma Shutdown_batch_inv: "batch_inv h \<Longrightarrow> batch_inv (Shutdown h)"
  by (auto simp: batch_inv_def Shutdown_seq flushBatch_seq stop_batchTimer_def timer_Stop_def
      log_Printf_def Let_def maxBatchSize_def split: option.splits)

lemma batchTimerFunc_batch_inv: "batch_inv h \<Longrightarrow> batch_inv (batchTimerFunc h)"
  by (simp add: batchTimerFunc_seq flushBatch_batch_inv)

lemma timer_expires_batch_inv:
  "timer_expires t h = Some h' \<Longrightarrow> batch_inv h \<Longrightarrow> batch_inv h'"
  by (auto simp: timer_expires_def batch_inv_def split: option.splits if_splits)

lemma timer_callback_batch_inv:
  "timer_callback t h = Some h' \<Longrightarrow> batch_inv h \<Longrightarrow> batch_inv h'"
proof -
  assume cb: "timer_callback t h = Some h'" and inv: "batch_inv h"
  have "batch_inv (h\<lparr>started := started h - {t}\<rparr>)"
    using inv by (simp add: batch_inv_def)
  then have "batch_inv (batchTimerFunc (h\<lparr>started := started h - {t}\<rparr>))"
    by (rule batchTimerFunc_batch_inv)
  with cb show ?thesis by (auto simp: timer_callback_def split: if_splits)
qed

lemma try_send_batch_part: "try_send m c h = Inr h1 \<Longrightarrow> batch_part h1 = batch_part h"
  by (auto simp: try_send_def delete_and_close_def close_send_def close_chan_def batch_part_def
      split: option.splits if_splits)

lemma deliver_batch_part: "deliver m cs h = Inr h' \<Longrightarrow> batch_part h' = batch_part h"
proof (induction cs arbitrary: h)
  case Nil
  then show ?case by simp
next
  case (Cons c cs)
  from Cons.prems obtain h1 where 1: "try_send m c h = Inr h1" and 2: "deliver m cs h1 = Inr h'"
    by (auto split: sum.splits)
  from Cons.IH[OF 2] try_send_batch_part[OF 1] show ?case by simp
qed

lemma Run_batch_part: "Run r h = Some (Inr h') \<Longrightarrow> batch_part h' = batch_part h"
proof (cases r)
  case (RegisterReq c)
  assume "Run r h = Some (Inr h')"
  with RegisterReq show ?thesis
    by (auto simp: Run_register_def log_Printf_def batch_part_def Let_def)
next
  case (UnregisterReq c)
  assume "Run r h = Some (Inr h')"
  with UnregisterReq show ?thesis
    by (auto simp: Run_unregister_def delete_and_close_def close_send_def close_chan_def
        log_Printf_def batch_part_def split: option.splits if_splits sum.splits)
next
  case (BroadcastReq snap)
  assume "Run r h = Some (Inr h')"
  with BroadcastReq obtain m rest where "deliver m snap (h\<lparr>broadcast := rest\<rparr>) = Inr h'"
    by (auto simp: Run_broadcast_def split: list.splits if_splits)
  from deliver_batch_part[OF this] show ?thesis by (simp add: batch_part_def)
qed

lemma exec_batch_inv:
  assumes inv: "batch_inv h" and e: "exec e h = Some (Inr h')"
  shows "batch_inv h'"
proof (cases e)
  case (Connect r)
  with e have "h' = ServeWS r h" by simp
  moreover have "batch_part (ServeWS r h) = batch_part h"
    by (cases "snd (Upgrade r)") (simp_all add: ServeWS_refused ServeWS_accepted batch_part_def)
  ultimately show ?thesis using inv by (simp add: batch_inv_frame)
next
  case (Unregister c)
  with e inv show ?thesis using Run_batch_part[of "UnregisterReq c" h h'] by (simp add: batch_inv_frame)
next
  case (Deliver snap)
  with e inv show ?thesis using Run_batch_part[of "BroadcastReq snap" h h'] by (simp add: batch_inv_frame)
next
  case (WritePump c k)
  with e have "batch_part h' = batch_part h"
    by (auto simp: writePump_recv_def batch_part_def split: option.splits if_splits)
  with inv show ?thesis by (rule batch_inv_frame[rotated])
next
  case (Broadcast t d)
  with e have "batch_part h' = batch_part h"
    by (auto simp: BroadcastMessage_def log_Printf_def batch_part_def Let_def split: option.splits)
  with inv show ?thesis by (rule batch_inv_frame[rotated])
next
  case (BroadcastBatched t d)
  with e inv show ?thesis by (auto simp: BroadcastMessageBatched_batch_inv)
next
  case (Elapse d)
  with e inv show ?thesis by (auto simp: batch_inv_def)
next
  case (TimerExpires t)
  with e inv show ?thesis by (auto dest: timer_expires_batch_inv)
next
  case (TimerCallback t)
  with e inv show ?thesis by (auto dest: timer_callback_batch_inv)
next
  case ShutdownCall
  with e inv show ?thesis by (auto simp: Shutdown_batch_inv)
qed

lemma execs_batch_inv:
  "batch_inv h \<Longrightarrow> execs es h = Some (Inr h') \<Longrightarrow> batch_inv h'"
proof (induction es arbitrary: h)
  case Nil
  then show ?case by simp
next
  case (Cons e es)
  from Cons.prems(2) obtain h1 where 1: "exec e h = Some (Inr h1)" and 2: "execs es h1 = Some (Inr h')"
    by (auto split: option.splits sum.splits)
  from Cons.IH[OF exec_batch_inv[OF Cons.prems(1) 1] 2] show ?case .
qed

lemma batch_inv_armed:
  "batch_inv h \<Longrightarrow> armed h = (case batchTimer h of None \<Rightarrow> Map.empty | Some t \<Rightarrow> (armed h |` {t}))"
  by (auto simp: batch_inv_def restrict_map_def fun_eq_iff split: option.splits)

lemma flushBatch_no_timer:
  "batchTimer h = None \<Longrightarrow> batchBuffer h \<noteq> [] \<Longrightarrow>
   flushBatch h =
     (case marshal (Message ''batch'' (PMessages (batchBuffer h))) of
        None \<Rightarrow> h\<lparr>batchBuffer := [], logs := logs h @ [LogBatchMarshalError]\<rparr>
      | Some jsonData \<Rightarrow>
          if length (broadcast h) < broadcastCap
          then h\<lparr>batchBuffer := [], broadcast := broadcast h @ [jsonData]\<rparr>
          else h\<lparr>batchBuffer := [], logs := logs h @ [LogBatchDropped]\<rparr>)"
  by (simp add: flushBatch_seq stop_batchTimer_def log_Printf_def Let_def split: option.splits)

lemma stop_batchTimer_result:
  assumes "batch_inv h"
  shows "stop_batchTimer h = h\<lparr>batchTimer := None, armed := Map.empty\<rparr>"
proof (cases "batchTimer h")
  case None
  with assms have "armed h = Map.empty"
    by (auto simp: batch_inv_def fun_eq_iff)
  with None show ?thesis by (simp add: stop_batchTimer_def)
next
  case (Some t)
  with assms have "(armed h)(t := None) = Map.empty"
    by (auto simp: batch_inv_def fun_eq_iff)
  with Some show ?thesis by (simp add: stop_batchTimer_def timer_Stop_def)
qed

lemma flush_submit_batch_part [simp]: "batch_part (flush_submit b h) = batch_part h"
  by (simp add: flush_submit_def batch_part_def log_Printf_def Let_def split: option.splits)

lemma complete_batch_part: "batch_part (complete r) = batch_part (fst r)"
  by (cases r) (simp add: complete_def split: option.splits)

lemma locked_batch_inv:
  "batch_inv (complete r) \<Longrightarrow> batch_inv (fst r)"
  using batch_inv_frame[of "fst r" "complete r"] by (simp add: complete_batch_part)

lemma in_flight_fst [simp]: "fst (in_flight r fl) = fst r"
  by (cases r) (simp add: in_flight_def split: option.splits)

lemma cexec_batch_inv:
  assumes inv: "batch_inv h" and e: "cexec ce (h, fl) = Some (Inr (h', fl'))"
  shows "batch_inv h'"
proof (cases ce)
  case (Submit i)
  with e have "h' = flush_submit (fl ! i) h" by (auto split: if_splits)
  with inv show ?thesis by (simp add: batch_inv_frame)
next
  case (Locked ev)
  show ?thesis
  proof (cases ev)
    case (BroadcastBatched t d)
    with Locked e have "h' = fst (BroadcastMessageBatched_locked t d h)"
      by (auto dest: arg_cong[where f=fst])
    moreover have "batch_inv (complete (BroadcastMessageBatched_locked t d h))"
      using BroadcastMessageBatched_batch_inv[OF inv, of t d]
      by (simp add: BroadcastMessageBatched_def)
    ultimately show ?thesis by (simp add: locked_batch_inv)
  next
    case (TimerCallback t)
    let ?h0 = "h\<lparr>started := started h - {t}\<rparr>"
    from TimerCallback Locked e have "h' = fst (batchTimerFunc_locked ?h0)"
      by (auto split: if_splits dest: arg_cong[where f=fst])
    moreover have "batch_inv ?h0" using inv by (simp add: batch_inv_def)
    then have "batch_inv (complete (batchTimerFunc_locked ?h0))"
      using batchTimerFunc_batch_inv[of ?h0] by (simp add: batchTimerFunc_def)
    ultimately show ?thesis by (simp add: locked_batch_inv)
  next
    case ShutdownCall
    with Locked e have "h' = fst (Shutdown_locked h)"
      by (auto dest: arg_cong[where f=fst])
    moreover have "batch_inv (complete (Shutdown_locked h))"
      using Shutdown_batch_inv[OF inv] by (simp add: Shutdown_def)
    ultimately show ?thesis by (simp add: locked_batch_inv)
  next
    case (Connect r)
    with Locked e have "exec ev h = Some (Inr h')" by (auto split: option.splits sum.splits)
    with inv show ?thesis by (rule exec_batch_inv)
  next
    case (Unregister c)
    with Locked e have "exec ev h = Some (Inr h')" by (auto split: option.splits sum.splits)
    with inv show ?thesis by (rule exec_batch_inv)
  next
    case (Deliver snap)
    with Locked e have "exec ev h = Some (Inr h')" by (auto split: option.splits sum.splits)
    with inv show ?thesis by (rule exec_batch_inv)
  next
    case (WritePump c k)
    with Locked e have "exec ev h = Some (Inr h')" by (auto split: option.splits sum.splits)
    with inv show ?thesis by (rule exec_batch_inv)
  next
    case (Broadcast t d)
    with Locked e have "exec ev h = Some (Inr h')" by (auto split: option.splits sum.splits)
    with inv show ?thesis by (rule exec_batch_inv)
  next
    case (Elapse d)
    with Locked e have "exec ev h = Some (Inr h')" by (auto split: option.splits sum.splits)
    with inv show ?thesis by (rule exec_batch_inv)
  next
    case (TimerExpires t)
    with Locked e have "exec ev h = Some (Inr h')" by (auto split: option.splits sum.splits)
    with inv show ?thesis by (rule exec_batch_inv)
  qed
qed

lemma cexecs_batch_inv:
  "batch_inv (fst s) \<Longrightarrow> cexecs es s = Some (Inr s') \<Longrightarrow> batch_inv (fst s')"
proof (induction es arbitrary: s)
  case Nil
  then show ?case by simp
next
  case (Cons e es)
  from Cons.prems(2) obtain s1 where 1: "cexec e s = Some (Inr s1)" and 2: "cexecs es s1 = Some (Inr s')"
    by (auto split: option.splits sum.splits)
  from Cons.prems(1) 1 have "batch_inv (fst s1)"
    using cexec_batch_inv[of "fst s" e "snd s" "fst s1" "snd s1"] by simp
  from Cons.IH[OF this 2] show ?case .
qed

lemma Shutdown_locked_result:
  assumes "batch_inv h"
  shows "Shutdown_locked h =
     (h\<lparr>batchBuffer := [], batchTimer := None, armed := Map.empty\<rparr>,
      if batchBuffer h = [] then None else Some (batchBuffer h))"
proof -
  define h1 where "h1 = h\<lparr>batchTimer := None, armed := Map.empty\<rparr>"
  have stop: "stop_batchTimer h = h1"
    using assms by (simp add: stop_batchTimer_result h1_def)
  have f: "batchTimer h1 = None" "batchBuffer h1 = batchBuffer h" by (simp_all add: h1_def)
  have 1: "Shutdown_locked h = (if batchBuffer h = [] then (h1, None) else flush_swap h1)"
    by (simp add: Shutdown_locked_def stop Let_def f)
  have 2: "flush_swap h1 = (h1\<lparr>batchBuffer := []\<rparr>, Some (batchBuffer h))" if "batchBuffer h \<noteq> []"
    using that by (simp add: flush_swap_def stop_batchTimer_def f Let_def)
  have 3: "h1\<lparr>batchBuffer := []\<rparr> = h1" if "batchBuffer h = []"
    using that by (simp add: h1_def)
  show ?thesis
  proof (cases "batchBuffer h = []")
    case True
    with 1 3 show ?thesis by (simp add: h1_def)
  next
    case False
    with 1 2 show ?thesis by (simp add: h1_def)
  qed
qed

text \<open>
  The batching invariant holds in every state that a schedule reaches from \<open>NewHub\<close>,
  also when the schedule interleaves inside flushes.
\<close>

lemma reachable_conc_batch_inv:
  "cexecs es (NewHub, []) = Some (Inr (h, fl)) \<Longrightarrow> batch_inv h"
  using cexecs_batch_inv[of "(NewHub, [])" es "(h, fl)"] batch_inv_NewHub by simp

text \<open>
  C7, as amended. Take any state that the system reaches, with any flushes of other
  goroutines in flight, and let \<open>Shutdown\<close> acquire \<open>batchMutex\<close> there.
  Its critical section stops and clears the deadline timer and swaps out what is pending:
  when it releases the mutex nothing is pending, \<open>h.batchTimer\<close> is nil and no timer is
  armed (none can expire). With nothing pending it changes nothing and begins no flush.
  With messages pending it begins exactly one flush, of all of them in order, which its
  goroutine submits before \<open>Shutdown\<close> returns: whenever that submit runs, it appends
  exactly one batch with those messages to \<open>h.broadcast\<close> (or drops it with one log
  line) and changes nothing else. With no other goroutine in between, the whole call is
  that swap followed by that submit. \<open>Shutdown\<close> does not wait for the flushes of other
  goroutines that are in flight: they stay in flight. The hub has no stopped state: a
  timer function that takes the mutex while \<open>h.batchTimer\<close> is nil does nothing, and a
  \<open>BroadcastMessageBatched\<close> that takes it after the critical section (also before
  \<open>Shutdown\<close> has returned) is pending and arms a new deadline timer.
\<close>

theorem Shutdown_flushes_pending:
  assumes r: "cexecs es (NewHub, []) = Some (Inr (h, fl))"
  shows "cexec (Locked ShutdownCall) (h, fl) =
           Some (Inr (h\<lparr>batchBuffer := [], batchTimer := None, armed := Map.empty\<rparr>,
                      if batchBuffer h = [] then fl else fl @ [batchBuffer h])) \<and>
         (batchBuffer h = [] \<longrightarrow>
            h\<lparr>batchBuffer := [], batchTimer := None, armed := Map.empty\<rparr> = h) \<and>
         (\<forall>h' fl' i. i < length fl' \<longrightarrow>
            cexec (Submit i) (h', fl') =
              Some (Inr
                (case marshal (Message ''batch'' (PMessages (fl' ! i))) of
                   None \<Rightarrow> h'\<lparr>logs := logs h' @ [LogBatchMarshalError]\<rparr>
                 | Some jsonData \<Rightarrow>
                     if length (broadcast h') < broadcastCap
                     then h'\<lparr>broadcast := broadcast h' @ [jsonData]\<rparr>
                     else h'\<lparr>logs := logs h' @ [LogBatchDropped]\<rparr>,
                 take i fl' @ drop (Suc i) fl'))) \<and>
         exec ShutdownCall h =
           Some (Inr (if batchBuffer h = [] then h
                      else flush_submit (batchBuffer h)
                             (h\<lparr>batchBuffer := [], batchTimer := None, armed := Map.empty\<rparr>))) \<and>
         (\<forall>t fl'. cexec (Locked (TimerExpires t))
                     (h\<lparr>batchBuffer := [], batchTimer := None, armed := Map.empty\<rparr>, fl') = None) \<and>
         (\<forall>t fl'. t \<in> started h \<longrightarrow>
            cexec (Locked (TimerCallback t))
              (h\<lparr>batchBuffer := [], batchTimer := None, armed := Map.empty\<rparr>, fl') =
              Some (Inr (h\<lparr>batchBuffer := [], batchTimer := None, armed := Map.empty,
                           started := started h - {t}\<rparr>, fl'))) \<and>
         (\<forall>eventType data fl'.
            cexec (Locked (BroadcastBatched eventType data))
              (h\<lparr>batchBuffer := [], batchTimer := None, armed := Map.empty\<rparr>, fl') =
              Some (Inr (h\<lparr>batchBuffer := [Message eventType data],
                           batchTimer := Some (nextTimer h),
                           armed := [nextTimer h \<mapsto> now h + batchWindow],
                           nextTimer := Suc (nextTimer h)\<rparr>, fl')))"
proof -
  from r have inv: "batch_inv h" by (rule reachable_conc_batch_inv)
  define h1 where "h1 = h\<lparr>batchBuffer := [], batchTimer := None, armed := Map.empty\<rparr>"
  have lk: "Shutdown_locked h = (h1, if batchBuffer h = [] then None else Some (batchBuffer h))"
    using inv by (simp add: Shutdown_locked_result h1_def)
  have empty: "h1 = h" if "batchBuffer h = []"
  proof -
    from that inv have "batchTimer h = None" by (simp add: batch_inv_def)
    with inv have "armed h = Map.empty"
      by (auto simp: batch_inv_def fun_eq_iff)
    with \<open>batchTimer h = None\<close> that show ?thesis by (simp add: h1_def)
  qed
  have 1: "cexec (Locked ShutdownCall) (h, fl) =
           Some (Inr (h1, if batchBuffer h = [] then fl else fl @ [batchBuffer h]))"
    by (simp add: lk in_flight_def)
  have 3: "cexec (Submit i) (h', fl') =
              Some (Inr
                (case marshal (Message ''batch'' (PMessages (fl' ! i))) of
                   None \<Rightarrow> h'\<lparr>logs := logs h' @ [LogBatchMarshalError]\<rparr>
                 | Some jsonData \<Rightarrow>
                     if length (broadcast h') < broadcastCap
                     then h'\<lparr>broadcast := broadcast h' @ [jsonData]\<rparr>
                     else h'\<lparr>logs := logs h' @ [LogBatchDropped]\<rparr>,
                 take i fl' @ drop (Suc i) fl'))" if "i < length fl'" for h' fl' i
    using that by (simp add: flush_submit_def log_Printf_def Let_def split: option.splits)
  have 4: "exec ShutdownCall h =
           Some (Inr (if batchBuffer h = [] then h else flush_submit (batchBuffer h) h1))"
    using empty by (simp add: Shutdown_def lk complete_def)
  have 5: "cexec (Locked (TimerExpires t)) (h1, fl') = None" for t fl'
    by (simp add: timer_expires_def h1_def)
  have 6: "cexec (Locked (TimerCallback t)) (h1, fl') =
              Some (Inr (h1\<lparr>started := started h - {t}\<rparr>, fl'))" if "t \<in> started h" for t fl'
    using that by (simp add: batchTimerFunc_locked_def in_flight_def h1_def)
  have 7: "cexec (Locked (BroadcastBatched eventType data)) (h1, fl') =
              Some (Inr (h1\<lparr>batchBuffer := [Message eventType data],
                           batchTimer := Some (nextTimer h),
                           armed := [nextTimer h \<mapsto> now h + batchWindow],
                           nextTimer := Suc (nextTimer h)\<rparr>, fl'))" for eventType data fl'
    by (simp add: BroadcastMessageBatched_locked_def time_AfterFunc_def in_flight_def
        maxBatchSize_def Let_def h1_def)
  show ?thesis
    unfolding h1_def[symmetric]
    using 1 empty 3 4 5 6 7 by (simp add: h1_def)
qed

lemmas locked_defs =
  NewHub_def BroadcastMessageBatched_locked_def batchTimerFunc_locked_def Shutdown_locked_def
  flush_swap_def flush_submit_def in_flight_def stop_batchTimer_def timer_Stop_def
  time_AfterFunc_def timer_expires_def log_Printf_def maxBatchSize_def batchWindow_def
  broadcastCap_def Let_def

theorem Shutdown_flushes_pending_witness:
  "cexecs (map (\<lambda>i. Locked (tick_call i)) [0, 1, 2, 3, 4, 5, 6, 7, 8, 9, 10, 11]) (NewHub, []) =
     Some (Inr (two_pending, [map tick [0, 1, 2, 3, 4, 5, 6, 7, 8, 9]])) \<and>
   batchBuffer two_pending = [tick 10, tick 11] \<and>
   cexec (Locked ShutdownCall) (two_pending, [map tick [0, 1, 2, 3, 4, 5, 6, 7, 8, 9]]) =
     Some (Inr (two_pending\<lparr>batchBuffer := [], batchTimer := None, armed := Map.empty\<rparr>,
                [map tick [0, 1, 2, 3, 4, 5, 6, 7, 8, 9], [tick 10, tick 11]])) \<and>
   cexec (Submit 1)
     (two_pending\<lparr>batchBuffer := [], batchTimer := None, armed := Map.empty\<rparr>,
      [map tick [0, 1, 2, 3, 4, 5, 6, 7, 8, 9], [tick 10, tick 11]]) =
     Some (Inr (two_pending\<lparr>batchBuffer := [], batchTimer := None, armed := Map.empty,
                              broadcast := [batch_json [tick_json 10, tick_json 11]]\<rparr>,
                [map tick [0, 1, 2, 3, 4, 5, 6, 7, 8, 9]])) \<and>
   cexecs [] (NewHub, []) = Some (Inr (NewHub, [])) \<and> batchBuffer NewHub = [] \<and>
   cexec (Locked ShutdownCall) (NewHub, []) = Some (Inr (NewHub, [])) \<and>
   cexecs [Locked (tick_call 0), Locked (Elapse batchWindow), Locked (TimerExpires 0)]
     (NewHub, []) = Some (Inr (timer_started, [])) \<and>
   0 \<in> started timer_started \<and>
   cexec (Locked (TimerCallback 0))
     (timer_started\<lparr>batchBuffer := [], batchTimer := None, armed := Map.empty\<rparr>, [[tick 0]]) =
     Some (Inr (timer_started\<lparr>batchBuffer := [], batchTimer := None, armed := Map.empty,
                                started := {}\<rparr>, [[tick 0]]))"
proof -
  let ?es = "map (\<lambda>i. Locked (tick_call i)) [0, 1, 2, 3, 4, 5, 6, 7, 8, 9, 10, 11]"
  let ?fl = "[map tick [0, 1, 2, 3, 4, 5, 6, 7, 8, 9]]"
  let ?h1 = "two_pending\<lparr>batchBuffer := [], batchTimer := None, armed := Map.empty\<rparr>"
  have r: "cexecs ?es (NewHub, []) = Some (Inr (two_pending, ?fl))"
    by (simp add: tick_call_def tick_def two_pending_def locked_defs)
  have b: "batchBuffer two_pending = [tick 10, tick 11]" by (simp add: two_pending_def)
  have r0: "cexecs [] (NewHub, []) = Some (Inr (NewHub, []))" by simp
  have b0: "batchBuffer NewHub = []" by (simp add: NewHub_def)
  have rs: "cexecs [Locked (tick_call 0), Locked (Elapse batchWindow), Locked (TimerExpires 0)]
     (NewHub, []) = Some (Inr (timer_started, []))"
    by (simp add: tick_call_def tick_def timer_started_def locked_defs)
  have st: "0 \<in> started timer_started" "started timer_started - {0} = {}"
    by (simp_all add: timer_started_def)
  have m: "marshal (Message ''batch'' (PMessages [tick 10, tick 11])) =
      Some (batch_json [tick_json 10, tick_json 11])"
    by (simp add: tick_def tick_json_def batch_json_def)
  have bc: "broadcast ?h1 = []" by (simp add: two_pending_def NewHub_def)
  note T = Shutdown_flushes_pending[OF r]
  from T b
  have 1: "cexec (Locked ShutdownCall) (two_pending, ?fl) =
     Some (Inr (?h1, [map tick [0, 1, 2, 3, 4, 5, 6, 7, 8, 9], [tick 10, tick 11]]))"
    by simp
  from T have "\<forall>h' fl' i. i < length fl' \<longrightarrow>
            cexec (Submit i) (h', fl') =
              Some (Inr
                (case marshal (Message ''batch'' (PMessages (fl' ! i))) of
                   None \<Rightarrow> h'\<lparr>logs := logs h' @ [LogBatchMarshalError]\<rparr>
                 | Some jsonData \<Rightarrow>
                     if length (broadcast h') < broadcastCap
                     then h'\<lparr>broadcast := broadcast h' @ [jsonData]\<rparr>
                     else h'\<lparr>logs := logs h' @ [LogBatchDropped]\<rparr>,
                 take i fl' @ drop (Suc i) fl'))" by blast
  from this[rule_format, of 1 "[map tick [0, 1, 2, 3, 4, 5, 6, 7, 8, 9], [tick 10, tick 11]]" ?h1]
  have 2: "cexec (Submit 1) (?h1, [map tick [0, 1, 2, 3, 4, 5, 6, 7, 8, 9], [tick 10, tick 11]]) =
     Some (Inr (?h1\<lparr>broadcast := [batch_json [tick_json 10, tick_json 11]]\<rparr>,
                [map tick [0, 1, 2, 3, 4, 5, 6, 7, 8, 9]]))"
    by (simp add: m bc broadcastCap_def del: marshal.simps cexec.simps)
  from Shutdown_flushes_pending[OF r0] b0
  have 3: "cexec (Locked ShutdownCall) (NewHub, []) = Some (Inr (NewHub, []))"
    by simp
  from Shutdown_flushes_pending[OF rs] st
  have 4: "cexec (Locked (TimerCallback 0))
     (timer_started\<lparr>batchBuffer := [], batchTimer := None, armed := Map.empty\<rparr>, [[tick 0]]) =
     Some (Inr (timer_started\<lparr>batchBuffer := [], batchTimer := None, armed := Map.empty,
                                started := {}\<rparr>, [[tick 0]]))"
    by (simp del: cexec.simps)
  from r b 1 2 r0 b0 3 rs st(1) 4 show ?thesis by simp
qed

text \<open>
  A flush in flight is not waited for: after ten ticks whose flush has been swapped out
  but not yet submitted, \<open>Shutdown\<close> finds nothing pending and returns with
  \<open>h.broadcast\<close> still empty; the batch is submitted afterwards.
\<close>

lemma flush_in_flight_lands_after_Shutdown:
  "map_option (map_sum id (\<lambda>s. (broadcast (fst s), snd s)))
     (cexecs (map (\<lambda>i. Locked (tick_call i)) [0, 1, 2, 3, 4, 5, 6, 7, 8, 9] @
              [Locked ShutdownCall])
        (NewHub, [])) =
     Some (Inr ([], [map tick [0, 1, 2, 3, 4, 5, 6, 7, 8, 9]])) \<and>
   map_option (map_sum id (\<lambda>s. (broadcast (fst s), snd s)))
     (cexecs (map (\<lambda>i. Locked (tick_call i)) [0, 1, 2, 3, 4, 5, 6, 7, 8, 9] @
              [Locked ShutdownCall, Submit 0])
        (NewHub, [])) =
     Some (Inr ([batch_json (map tick_json [0, 1, 2, 3, 4, 5, 6, 7, 8, 9])], []))"
  by (simp add: tick_call_def tick_def tick_json_def batch_json_def locked_defs)

text \<open>
  C7 as stated fails: after \<open>Shutdown\<close> has returned on a new hub, a call of
  \<open>BroadcastMessageBatched\<close> arms timer 0, due after the batch window; the timer expires
  and its function submits a batch.
\<close>

theorem Shutdown_accepts_timers_counterexample:
  "batchTimer (BroadcastMessageBatched ''tick'' (PInt 0) (Shutdown NewHub)) = Some 0 \<and>
   armed (BroadcastMessageBatched ''tick'' (PInt 0) (Shutdown NewHub)) 0 = Some 50 \<and>
   map_option (map_sum id broadcast)
     (execs [ShutdownCall, tick_call 0, Elapse batchWindow, TimerExpires 0, TimerCallback 0]
        NewHub) =
     Some (Inr [batch_json [tick_json 0]])"
  by (simp add: tick_call_def batch_defs batch_json_def tick_json_def)

text \<open>
  C8 fails on this schedule. Tick 1 arms timer 0; the window elapses and the runtime
  starts the function of timer 0, which does not get \<open>batchMutex\<close> yet; ticks 2 to 10
  arrive and the tenth message flushes the first window by size (\<open>Stop\<close> comes too late
  for timer 0); tick 11 opens the second window and arms timer 1, due one window later.
  Then the function of timer 0 runs: \<open>h.batchTimer\<close> is not nil (it is timer 1), so it
  flushes the second window at once, at the same instant, long before that window's own
  deadline: the contents of a window are flushed by a timer armed for an earlier window.
\<close>

theorem stale_timer_flushes_next_window:
  "execs ([tick_call 1, Elapse batchWindow, TimerExpires 0] @
          map tick_call [2, 3, 4, 5, 6, 7, 8, 9, 10] @ [tick_call 11]) NewHub =
     Some (Inr stale_pending) \<and>
   batchBuffer stale_pending = [tick 11] \<and> batchTimer stale_pending = Some 1 \<and>
   armed stale_pending 1 = Some (now stale_pending + batchWindow) \<and>
   exec (TimerExpires 1) stale_pending = None \<and>
   exec (TimerCallback 0) stale_pending = Some (Inr stale_flushed) \<and>
   now stale_flushed = now stale_pending \<and>
   broadcast stale_flushed = broadcast stale_pending @ [batch_json [tick_json 11]] \<and>
   batchBuffer stale_flushed = [] \<and> armed stale_flushed = Map.empty"
proof -
  have 1: "execs ([tick_call 1, Elapse batchWindow, TimerExpires 0] @
          map tick_call [2, 3, 4, 5, 6, 7, 8, 9, 10] @ [tick_call 11]) NewHub =
     Some (Inr stale_pending)"
    by (simp add: tick_call_def stale_pending_def tick_def batch_defs batch_json_def tick_json_def)
  have 2: "exec (TimerExpires 1) stale_pending = None"
    by (simp add: stale_pending_def batch_defs)
  have 3: "exec (TimerCallback 0) stale_pending = Some (Inr stale_flushed)"
    by (simp add: stale_pending_def stale_flushed_def tick_def batch_defs batch_json_def
        tick_json_def)
  have 4: "batchBuffer stale_pending = [tick 11]" "batchTimer stale_pending = Some 1"
    "armed stale_pending 1 = Some (now stale_pending + batchWindow)"
    "now stale_flushed = now stale_pending"
    "broadcast stale_flushed = broadcast stale_pending @ [batch_json [tick_json 11]]"
    "batchBuffer stale_flushed = []" "armed stale_flushed = Map.empty"
    by (simp_all add: stale_pending_def stale_flushed_def NewHub_def batchWindow_def)
  from 1 2 3 4 show ?thesis by simp
qed

end
